theory Spec2Isabelle
  imports Main "HOL-Library.Sublist"
begin

section \<open>Text of a file\<close>

text \<open>
  The three scripts (\<^verbatim>\<open>fix_admin_type.py\<close>, \<^verbatim>\<open>fix_consensus_query.py\<close>,
  \<^verbatim>\<open>fix_query.py\<close>) read one file as text, call \<^verbatim>\<open>re.sub\<close> once with a literal
  pattern and a literal replacement, write the result back and print one line.

  A Python \<^verbatim>\<open>str\<close> is modelled as a \<^typ>\<open>string\<close>, so the documents of this
  development are the texts whose characters lie in the 8-bit range.  The
  character class \<^verbatim>\<open>\s\<close> of a \<^verbatim>\<open>str\<close> pattern is Python's \<^verbatim>\<open>str.isspace\<close>; in
  the 8-bit range these are the code points 0x09-0x0D, 0x1C-0x20, 0x85 and 0xA0.
\<close>

definition isspace :: "char \<Rightarrow> bool" where
  "isspace c =
     (c \<in> set [CHR 0x09, CHR 0x0A, CHR 0x0B, CHR 0x0C, CHR 0x0D, CHR 0x1C, CHR 0x1D, CHR 0x1E,
                CHR 0x1F, CHR 0x20, CHR 0x85, CHR 0xA0])"

definition backslash :: char where
  "backslash = CHR 0x5C"

definition LF :: char where
  "LF = CHR 0x0A"

definition CR :: char where
  "CR = CHR 0x0D"

section \<open>The fragment of Python's \<^verbatim>\<open>re\<close> that the scripts use\<close>

text \<open>
  The patterns of the scripts are sequences of literal characters, of escaped
  punctuation (\<^verbatim>\<open>\{\<close>, \<^verbatim>\<open>\}\<close>, \<^verbatim>\<open>\|\<close>, \<^verbatim>\<open>\?\<close>: the character itself) and of
  \<^verbatim>\<open>\s*\<close> (a greedy repetition of the whitespace class).  \<open>compile\<close> is
  \<^verbatim>\<open>re.compile\<close> on that fragment of the pattern language and has three
  answers:
  \<^item> \<open>Some (Inr p)\<close>: the pattern is in the fragment and \<open>p\<close> is what it means;
  \<^item> \<open>Some (Inl Re_error)\<close>: Python raises \<^verbatim>\<open>re.error\<close>.  This is the answer only
    where Python raises whatever follows: a \<^verbatim>\<open>*\<close> with nothing to repeat or
    behind a repetition, a \<^verbatim>\<open>)\<close> with no group open, a \<^verbatim>\<open>(\<close> or a backslash as
    the last character;
  \<^item> \<open>None\<close>: the pattern uses a construct outside the fragment, and the model
    makes no statement about it.
  An escaped character that is not an ASCII letter or digit is a literal, and
  so are an unescaped \<^verbatim>\<open>}\<close> and \<^verbatim>\<open>]\<close>, as in Python.  The flags \<^verbatim>\<open>re.MULTILINE\<close>
  and \<^verbatim>\<open>re.DOTALL\<close> change the meaning of \<^verbatim>\<open>^\<close>, \<^verbatim>\<open>$\<close> and \<^verbatim>\<open>.\<close> only, none of
  which is in the fragment: they have no effect here and are not a parameter
  of the model.
\<close>

datatype error = FileNotFoundError | PermissionError | OSError | Re_error | Flush_error

datatype atom = Chr char | Space

datatype item = One atom | Star atom

definition ascii_alnum :: "char \<Rightarrow> bool" where
  "ascii_alnum c =
     (c \<in> set ''abcdefghijklmnopqrstuvwxyzABCDEFGHIJKLMNOPQRSTUVWXYZ0123456789'')"

definition escaped :: "char \<Rightarrow> atom option" where
  "escaped e = (if e = CHR ''s'' then Some Space
                else if ascii_alnum e then None
                else Some (Chr e))"

definition beyond :: "char \<Rightarrow> bool" where
  "beyond c = (c \<in> set ''.^$+?{[|('')"

definition item_cons :: "item \<Rightarrow> (error + item list) option \<Rightarrow> (error + item list) option" where
  "item_cons i r = map_option (map_sum id ((#) i)) r"

fun compile :: "string \<Rightarrow> (error + item list) option" where
  "compile [] = Some (Inr [])"
| "compile [c] =
     (if c = backslash \<or> c = CHR ''*'' \<or> c = CHR '')'' \<or> c = CHR ''('' then Some (Inl Re_error)
      else if beyond c then None
      else Some (Inr [One (Chr c)]))"
| "compile (c # d # cs) =
     (if c = backslash then
        (case escaped d of
           None \<Rightarrow> None
         | Some a \<Rightarrow>
            (case cs of
               [] \<Rightarrow> Some (Inr [One a])
             | q # cs' \<Rightarrow>
                 if q = CHR ''*'' then item_cons (Star a) (compile cs')
                 else item_cons (One a) (compile cs)))
      else if c = CHR ''*'' \<or> c = CHR '')'' then Some (Inl Re_error)
      else if beyond c then None
      else if d = CHR ''*'' then item_cons (Star (Chr c)) (compile cs)
      else item_cons (One (Chr c)) (compile (d # cs)))"

fun accepts :: "atom \<Rightarrow> char \<Rightarrow> bool" where
  "accepts (Chr c) x = (x = c)"
| "accepts Space x = isspace x"

text \<open>
  The matcher is the backtracking one of \<^verbatim>\<open>re\<close>: at a greedy repetition it tries
  one more character first and falls back to the rest of the pattern when that
  fails.  \<open>match adv p s\<close> matches \<open>p\<close> at the start of \<open>s\<close> and returns what
  follows the match.  With \<open>adv\<close> set the match must not be empty (the
  \<^verbatim>\<open>must_advance\<close> state of the engine, set after an empty match).
\<close>

fun match :: "bool \<Rightarrow> item list \<Rightarrow> string \<Rightarrow> string option" where
  "match adv [] s = (if adv then None else Some s)"
| "match adv (One a # p) [] = None"
| "match adv (One a # p) (x # xs) = (if accepts a x then match False p xs else None)"
| "match adv (Star a # p) [] = match adv p []"
| "match adv (Star a # p) (x # xs) =
     (if accepts a x then
        (case match False (Star a # p) xs of
           Some r \<Rightarrow> Some r
         | None \<Rightarrow> match adv p (x # xs))
      else match adv p (x # xs))"

text \<open>
  \<open>search adv p s\<close> is the leftmost match: the text before it and the text after
  it.  Only a match at the very start is subject to \<open>adv\<close>.
\<close>

fun search :: "bool \<Rightarrow> item list \<Rightarrow> string \<Rightarrow> (string \<times> string) option" where
  "search adv p [] = map_option (Pair []) (match adv p [])"
| "search adv p (x # xs) =
     (case match adv p (x # xs) of
        Some r \<Rightarrow> Some ([], r)
      | None \<Rightarrow> map_option (\<lambda>(pre, r). (x # pre, r)) (search False p xs))"

text \<open>
  The loop of \<^verbatim>\<open>re.sub\<close> and \<^verbatim>\<open>re.subn\<close> (one implementation in CPython, which
  counts the replacements in both): search from the end of the previous match,
  copy the text before the match, append the replacement, continue after the
  match; after an empty match the next one must advance.  The result is the new
  text and the number of replacements.
\<close>

function subn_loop :: "item list \<Rightarrow> string \<Rightarrow> bool \<Rightarrow> string \<Rightarrow> string \<times> nat" where
  "subn_loop p repl adv s =
     (case search adv p s of
        None \<Rightarrow> (s, 0)
      | Some (pre, rest) \<Rightarrow>
          (case subn_loop p repl (length pre + length rest = length s) rest of
             (out, n) \<Rightarrow> (pre @ repl @ out, Suc n)))"
  by pat_completeness auto
termination
proof (relation "measure (\<lambda>(p, repl, adv, s). 2 * length s + (if adv then 0 else 1))")
  show "wf (measure (\<lambda>(p, repl, adv, s). 2 * length s + (if adv then 0 else 1)))"
    by simp
next
  fix p :: "item list" and repl :: string and adv :: bool and s x2 pre rest :: string
    and x :: "string \<times> string"
  assume found: "search adv p s = Some x" and x: "(pre, rest) = x"
  have m: "\<And>adv s r. match adv p s = Some r \<Longrightarrow>
             length r \<le> length s \<and> (adv \<longrightarrow> length r < length s)"
  proof -
    fix adv s r
    show "match adv p s = Some r \<Longrightarrow> length r \<le> length s \<and> (adv \<longrightarrow> length r < length s)"
    proof (induction adv p s arbitrary: r rule: match.induct)
      case (5 adv a p x xs)
      then show ?case
        by (fastforce split: if_splits option.splits)
    qed (fastforce split: if_splits)+
  qed
  have "length pre + length rest \<le> length s \<and> (adv \<longrightarrow> length rest < length s)"
    using found x
  proof (induction s arbitrary: adv pre rest x)
    case Nil
    then show ?case
      using m [of adv "[]"] by auto
  next
    case (Cons c cs)
    show ?case
    proof (cases "match adv p (c # cs)")
      case (Some r)
      with Cons.prems m [of adv "c # cs" r] show ?thesis
        by auto
    next
      case None
      with Cons.prems obtain pre' where s': "search False p cs = Some (pre', rest)"
        and pre: "pre = c # pre'"
        by auto
      from Cons.IH [OF s' refl] pre show ?thesis
        by simp
    qed
  qed
  then show "((p, repl, length pre + length rest = length s, rest), (p, repl, adv, s))
      \<in> measure (\<lambda>(p, repl, adv, s). 2 * length s + (if adv then 0 else 1))"
    by auto
qed

text \<open>
  \<^verbatim>\<open>re.subn(pattern, repl, string)\<close>: compile the pattern (an error of the
  pattern is raised first), take the replacement literally when it holds no
  backslash, run the loop from the start of the text.  The templates of the
  scripts hold no backslash; one that does is outside the model (\<open>None\<close>).
  \<^verbatim>\<open>re.sub\<close> returns the text only.
\<close>

definition re_subn :: "string \<Rightarrow> string \<Rightarrow> string \<Rightarrow> (error + string \<times> nat) option" where
  "re_subn pattern repl s =
     (case compile pattern of
        None \<Rightarrow> None
      | Some (Inl e) \<Rightarrow> Some (Inl e)
      | Some (Inr p) \<Rightarrow>
          if backslash \<in> set repl then None
          else Some (Inr (subn_loop p repl False s)))"

definition re_sub :: "string \<Rightarrow> string \<Rightarrow> string \<Rightarrow> (error + string) option" where
  "re_sub pattern repl s =
     (case re_subn pattern repl s of
        None \<Rightarrow> None
      | Some (Inl e) \<Rightarrow> Some (Inl e)
      | Some (Inr (out, n)) \<Rightarrow> Some (Inr out))"

section \<open>The literals of the three scripts\<close>

text \<open>
  A raw pattern is written as the list of its pieces between backslashes:
  \<open>raw [''a'', ''sb'']\<close> is the Python literal \<^verbatim>\<open>r'a\sb'\<close>.
\<close>

fun raw :: "string list \<Rightarrow> string" where
  "raw [] = []"
| "raw [s] = s"
| "raw (s # t # ts) = s @ backslash # raw (t # ts)"

definition admin_path :: string where
  "admin_path =
     ''/Users/james/code/ftc-platform/src/app/admin/events/[eventId]/applications/AdminApplicationsClient.tsx''"

definition router_path :: string where
  "router_path = ''/Users/james/code/ftc-platform/src/server/api/routers/application.ts''"

definition old_user_pattern :: string where
  "old_user_pattern =
     raw [''user: '', ''{'', ''s*id: string;'', ''s*name: string '', ''| null;'',
          ''s*email: string '', ''| null;'', ''s*profile'', ''?:'']"

definition new_user_replacement :: string where
  "new_user_replacement =
     ''user: {\<newline>'' @
     ''    id: string;\<newline>'' @
     ''    name: string | null;\<newline>'' @
     ''    email: string | null;\<newline>'' @
     ''    adminNotes: string | null;\<newline>'' @
     ''    adminLabels: string[];\<newline>'' @
     ''    adminUpdatedAt: Date | null;\<newline>'' @
     ''    profile?:''"

definition old_consensus_pattern :: string where
  "old_consensus_pattern =
     raw [''user: '', ''{'', ''s*select: '', ''{'', ''s*id: true,'', ''s*name: true,'',
          ''s*email: true,'', ''s*'', ''},'', ''s*'', ''},'']"

definition new_consensus_replacement :: string where
  "new_consensus_replacement =
     ''user: {\<newline>'' @
     ''            select: {\<newline>'' @
     ''              id: true,\<newline>'' @
     ''              name: true,\<newline>'' @
     ''              email: true,\<newline>'' @
     ''              adminNotes: true,\<newline>'' @
     ''              adminLabels: true,\<newline>'' @
     ''              adminUpdatedAt: true,\<newline>'' @
     ''              profile: true,\<newline>'' @
     ''            },\<newline>'' @
     ''          },''"

definition old_pattern :: string where
  "old_pattern =
     raw [''user: '', ''{'', ''s*include: '', ''{'', ''s*profile: true,'', ''s*'', ''},'',
          ''s*'', ''},'']"

definition new_replacement :: string where
  "new_replacement =
     ''user: {\<newline>'' @
     ''            select: {\<newline>'' @
     ''              id: true,\<newline>'' @
     ''              name: true,\<newline>'' @
     ''              email: true,\<newline>'' @
     ''              adminNotes: true,\<newline>'' @
     ''              adminLabels: true,\<newline>'' @
     ''              adminUpdatedAt: true,\<newline>'' @
     ''              profile: true,\<newline>'' @
     ''            },\<newline>'' @
     ''          },''"

section \<open>Files and the script body\<close>

text \<open>
  The world of a run: the text stored under each path, the paths that may not
  be opened for reading or for writing, how many characters the device still
  accepts in a write (\<open>None\<close>: any number), the lines printed so far, and
  whether standard output takes a line.  A stored text is the characters of
  the file in the default encoding; a file that does not decode counts as one
  that cannot be read.
\<close>

datatype fault = No_fault | Write_fault | Flush_fault

record world =
  files :: "string \<rightharpoonup> string"
  unreadable :: "string set"
  unwritable :: "string set"
  room :: "nat option"
  stdout :: "string list"
  stdout_fault :: fault

text \<open>
  \<^verbatim>\<open>open(path, 'r')\<close> raises when the file is missing or may not be read and
  changes nothing.  The handle is the stored text.
\<close>

definition open_r :: "string \<Rightarrow> world \<Rightarrow> error + string" where
  "open_r path w =
     (case files w path of
        None \<Rightarrow> Inl FileNotFoundError
      | Some stored \<Rightarrow> if path \<in> unreadable w then Inl PermissionError else Inr stored)"

text \<open>
  The files are opened in text mode with the default \<^verbatim>\<open>newline=None\<close>: reading
  translates \<^verbatim>\<open>\r\n\<close> and a lone \<^verbatim>\<open>\r\<close> to \<^verbatim>\<open>\n\<close>.  Writing translates
  \<^verbatim>\<open>\n\<close> to \<^verbatim>\<open>os.linesep\<close>, which is \<^verbatim>\<open>\n\<close> on the system of the hard-coded
  paths (\<^verbatim>\<open>/Users/...\<close>), so writing stores the text as it is.
\<close>

fun universal_newlines :: "string \<Rightarrow> string" where
  "universal_newlines [] = []"
| "universal_newlines [c] = [if c = CR then LF else c]"
| "universal_newlines (c # d # cs) =
     (if c = CR \<and> d = LF then LF # universal_newlines cs
      else if c = CR then LF # universal_newlines (d # cs)
      else c # universal_newlines (d # cs))"

definition f_read :: "string \<Rightarrow> string" where
  "f_read stored = universal_newlines stored"

text \<open>
  \<^verbatim>\<open>open(path, 'w')\<close> raises when the file may not be written; otherwise it
  truncates the file.  \<^verbatim>\<open>f.write(s)\<close> (with the flush at the end of the
  \<^verbatim>\<open>with\<close> block) stores the text; when the device accepts fewer characters
  than the text has, that many are stored and the write raises.
\<close>

definition open_w :: "string \<Rightarrow> world \<Rightarrow> error + world" where
  "open_w path w =
     (if path \<in> unwritable w then Inl PermissionError
      else Inr (w\<lparr>files := (files w)(path \<mapsto> [])\<rparr>))"

definition f_write :: "string \<Rightarrow> string \<Rightarrow> world \<Rightarrow> world \<times> (error + unit)" where
  "f_write path s w =
     (case room w of
        None \<Rightarrow> (w\<lparr>files := (files w)(path \<mapsto> s)\<rparr>, Inr ())
      | Some k \<Rightarrow>
          if length s \<le> k then (w\<lparr>files := (files w)(path \<mapsto> s)\<rparr>, Inr ())
          else (w\<lparr>files := (files w)(path \<mapsto> take k s)\<rparr>, Inl OSError))"

text \<open>
  \<^verbatim>\<open>print(line)\<close> is the last statement of each script.  When standard output
  takes the line, it is printed.  When it does not, the line is lost: with
  standard output a terminal or unbuffered the write fails inside \<^verbatim>\<open>print\<close>,
  which raises \<^verbatim>\<open>OSError\<close>; with standard output buffered (a file or a pipe)
  \<^verbatim>\<open>print\<close> returns and the flush of the interpreter at exit fails, which is
  the outcome \<open>Flush_error\<close> of the run.
\<close>

definition print :: "string \<Rightarrow> world \<Rightarrow> world \<times> (error + unit)" where
  "print line w =
     (case stdout_fault w of
        No_fault \<Rightarrow> (w\<lparr>stdout := stdout w @ [line]\<rparr>, Inr ())
      | Write_fault \<Rightarrow> (w, Inl OSError)
      | Flush_fault \<Rightarrow> (w, Inl Flush_error))"

text \<open>
  The body shared by the three scripts, statement by statement: read the file,
  substitute, write the file back, print.  Nothing catches an exception, so
  the first one ends the run with the world as it is at that point.  The run
  of a script whose pattern or replacement is outside the modelled fragment is
  \<open>None\<close> from the substitution on.
\<close>

definition script :: "string \<Rightarrow> string \<Rightarrow> string \<Rightarrow> string \<Rightarrow> world \<Rightarrow> (world \<times> (error + unit)) option" where
  "script path pattern repl msg w =
     (case open_r path w of
        Inl e \<Rightarrow> Some (w, Inl e)
      | Inr f \<Rightarrow>
          (let content = f_read f in
           case re_sub pattern repl content of
             None \<Rightarrow> None
           | Some (Inl e) \<Rightarrow> Some (w, Inl e)
           | Some (Inr updated_content) \<Rightarrow>
               (case open_w path w of
                  Inl e \<Rightarrow> Some (w, Inl e)
                | Inr w1 \<Rightarrow>
                    (case f_write path updated_content w1 of
                       (w2, Inl e) \<Rightarrow> Some (w2, Inl e)
                     | (w2, Inr u) \<Rightarrow> Some (print msg w2)))))"

definition fix_admin_type :: "world \<Rightarrow> (world \<times> (error + unit)) option" where
  "fix_admin_type =
     script admin_path old_user_pattern new_user_replacement ''Updated ApplicationWithUser type''"


definition fix_query :: "world \<Rightarrow> (world \<times> (error + unit)) option" where
  "fix_query =
     script router_path old_pattern new_replacement ''Updated user include section''"

text \<open>
  The exit status of the interpreter: 0 when the script runs to its end and the
  output is flushed, 1 when an exception reaches the top level, 120 when the
  flush of standard output at exit fails.
\<close>

definition exit_status :: "error + unit \<Rightarrow> nat" where
  "exit_status r =
     (case r of
        Inl e \<Rightarrow> if e = Flush_error then 120 else 1
      | Inr u \<Rightarrow> 0)"

section \<open>What a pattern means and what the substitution is to do\<close>

text \<open>
  The words a pattern denotes, independently of the matcher: a literal denotes
  itself, \<^verbatim>\<open>\s\<close> any whitespace character, a repetition any number of accepted
  characters.  A pattern \<open>starts\<close> a text when some prefix of the text is a word
  of the pattern; a text has \<open>no_match\<close> when no part of it is one.
\<close>

fun lang :: "item list \<Rightarrow> string \<Rightarrow> bool" where
  "lang [] w = (w = [])"
| "lang (One a # p) w = (\<exists>x v. w = x # v \<and> accepts a x \<and> lang p v)"
| "lang (Star a # p) w = (\<exists>u v. w = u @ v \<and> list_all (accepts a) u \<and> lang p v)"

definition starts :: "item list \<Rightarrow> string \<Rightarrow> bool" where
  "starts p s = (\<exists>w t. s = w @ t \<and> lang p w)"

definition no_match :: "item list \<Rightarrow> string \<Rightarrow> bool" where
  "no_match p s = (\<forall>pre w post. s = pre @ w @ post \<longrightarrow> \<not> lang p w)"

text \<open>
  The contract of the substitution in the words of the specification: the new
  document is the document with every non-overlapping match, taken from left
  to right, replaced by the replacement, and the count is the number of
  replacements.  Each step takes the leftmost place where a match begins
  (none begins in the gap \<open>g\<close> before it), replaces the match \<open>m\<close> and goes on
  behind it.
\<close>

inductive replaced_all :: "item list \<Rightarrow> string \<Rightarrow> string \<Rightarrow> string \<Rightarrow> nat \<Rightarrow> bool"
  for p :: "item list" and repl :: string where
  none: "no_match p s \<Longrightarrow> replaced_all p repl s s 0"
| more: "lang p m \<Longrightarrow> m \<noteq> [] \<Longrightarrow> \<forall>j<length g. \<not> starts p (drop j (g @ m @ rest)) \<Longrightarrow>
         replaced_all p repl rest out n \<Longrightarrow>
         replaced_all p repl (g @ m @ rest) (g @ repl @ out) (Suc n)"

text \<open>
  The shape of the three patterns: they begin with a literal (\<open>anchored\<close>), and
  every \<^verbatim>\<open>\s*\<close> is followed by a literal that is not whitespace (\<open>crisp\<close>).
  \<open>lead\<close> is the literal a pattern begins with, \<open>lits\<close> all its literal
  characters, \<open>tokens\<close> its literal pieces between the repetitions.
\<close>

fun anchored :: "item list \<Rightarrow> bool" where
  "anchored (One a # p) = True"
| "anchored p = False"

fun lits :: "item list \<Rightarrow> string" where
  "lits [] = []"
| "lits (One (Chr c) # p) = c # lits p"
| "lits (i # p) = lits p"

fun lead :: "item list \<Rightarrow> string" where
  "lead (One (Chr c) # p) = c # lead p"
| "lead p = []"

fun crisp :: "item list \<Rightarrow> bool" where
  "crisp [] = True"
| "crisp (One (Chr c) # p) = crisp p"
| "crisp (Star Space # p) = (lead p \<noteq> [] \<and> \<not> isspace (hd (lead p)) \<and> crisp p)"
| "crisp (i # p) = False"

fun tokens :: "item list \<Rightarrow> string list" where
  "tokens [] = [[]]"
| "tokens (One (Chr c) # p) = (case tokens p of [] \<Rightarrow> [[c]] | t # ts \<Rightarrow> (c # t) # ts)"
| "tokens (i # p) = [] # tokens p"

definition lit :: "string \<Rightarrow> item list" where
  "lit s = map (\<lambda>c. One (Chr c)) s"

fun segs :: "string list \<Rightarrow> item list" where
  "segs [] = []"
| "segs [t] = lit t"
| "segs (t # u # ts) = lit t @ Star Space # segs (u # ts)"

text \<open>
  A fragment of a document that is the tokens \<open>ts\<close> in order with the texts
  \<open>gs\<close> between them.
\<close>

fun fragment :: "string list \<Rightarrow> string list \<Rightarrow> string" where
  "fragment [] gs = []"
| "fragment [t] gs = t"
| "fragment (t # u # ts) [] = t @ fragment (u # ts) []"
| "fragment (t # u # ts) (g # gs) = t @ g @ fragment (u # ts) gs"

text \<open>
  A replacement is stable for a pattern when putting it in place of a match
  cannot make a new match.  With \<open>skel\<close> the text without its whitespace (the
  same for every word of a crisp pattern), the conditions are: the replacement
  begins with the literal the pattern begins with, its non-whitespace text and
  the pattern's are not prefixes of one another, the leading literal begins
  nowhere else in the replacement and nowhere else in the non-whitespace text
  of the pattern.  All of it is computed from the two literals.
\<close>

definition skel :: "string \<Rightarrow> string" where
  "skel s = filter (\<lambda>c. \<not> isspace c) s"

fun tails_all :: "(string \<Rightarrow> bool) \<Rightarrow> string \<Rightarrow> bool" where
  "tails_all P [] = True"
| "tails_all P (x # xs) = (P (x # xs) \<and> tails_all P xs)"

definition comparable :: "string \<Rightarrow> string \<Rightarrow> bool" where
  "comparable a b = (prefix a b \<or> prefix b a)"

definition patch_stable :: "item list \<Rightarrow> string \<Rightarrow> bool" where
  "patch_stable p repl =
     (crisp p \<and> lead p \<noteq> [] \<and> \<not> isspace (hd (lead p)) \<and> prefix (lead p) repl \<and>
      \<not> comparable (skel (lits p)) (skel repl) \<and>
      tails_all (\<lambda>t. \<not> comparable (lead p) t) (tl repl) \<and>
      tails_all (\<lambda>t. \<not> prefix (skel (lead p)) t) (tl (skel (lits p))))"

text \<open>The pattern and the replacement of each of the three scripts.\<close>

definition patches :: "(string \<times> string) list" where
  "patches =
     [(old_user_pattern, new_user_replacement),
      (old_consensus_pattern, new_consensus_replacement),
      (old_pattern, new_replacement)]"

text \<open>
  \<open>after w s\<close> is the text behind the first occurrence of \<open>w\<close> in \<open>s\<close>;
  \<open>in_order ws s\<close> says that the words \<open>ws\<close> occur in \<open>s\<close> one behind the other.
\<close>

fun after :: "string \<Rightarrow> string \<Rightarrow> string option" where
  "after w [] = (if w = [] then Some [] else None)"
| "after w (x # xs) = (if prefix w (x # xs) then Some (drop (length w) (x # xs)) else after w xs)"

fun in_order :: "string list \<Rightarrow> string \<Rightarrow> bool" where
  "in_order [] s = True"
| "in_order (w # ws) s = (case after w s of None \<Rightarrow> False | Some r \<Rightarrow> in_order ws r)"



text \<open>A world with one file, no restriction, no fault and nothing printed.\<close>

definition one_file :: "string \<Rightarrow> string \<Rightarrow> world" where
  "one_file path stored =
     \<lparr>files = [path \<mapsto> stored], unreadable = {}, unwritable = {}, room = None, stdout = [],
      stdout_fault = No_fault\<rparr>"

text \<open>
  What the claims call a file that can be read and a file that can be written:
  \<^verbatim>\<open>open(path, 'r')\<close> succeeds; \<^verbatim>\<open>open(path, 'w')\<close> succeeds and the device takes
  the whole text.
\<close>

definition readable_file :: "string \<Rightarrow> world \<Rightarrow> bool" where
  "readable_file path w = (files w path \<noteq> None \<and> path \<notin> unreadable w)"

definition accepts_write :: "string \<Rightarrow> string \<Rightarrow> world \<Rightarrow> bool" where
  "accepts_write path s w =
     (path \<notin> unwritable w \<and> (case room w of None \<Rightarrow> True | Some k \<Rightarrow> length s \<le> k))"

section \<open>The matcher against the meaning of a pattern\<close>

text \<open>
  The matcher is sound (what it consumes is a word of the pattern) and complete
  (where a word of the pattern begins, it finds a match).
\<close>

lemma lang_Star_skip: "lang p w \<Longrightarrow> lang (Star a # p) w"
  by (simp, rule exI [of _ "[]"]) simp

lemma lang_Star_more: "accepts a x \<Longrightarrow> lang (Star a # p) w \<Longrightarrow> lang (Star a # p) (x # w)"
proof -
  assume x: "accepts a x" and "lang (Star a # p) w"
  then obtain u v where "w = u @ v" "list_all (accepts a) u" "lang p v"
    by auto
  with x have "x # w = (x # u) @ v \<and> list_all (accepts a) (x # u) \<and> lang p v"
    by simp
  then show ?thesis
    unfolding lang.simps by blast
qed

lemma lang_Star_cases:
  assumes "lang (Star a # p) w"
  shows "lang p w \<or> (\<exists>x w'. w = x # w' \<and> accepts a x \<and> lang (Star a # p) w')"
proof -
  from assms obtain u v where uv: "w = u @ v" "list_all (accepts a) u" "lang p v"
    by auto
  show ?thesis
  proof (cases u)
    case Nil
    with uv show ?thesis by simp
  next
    case (Cons y u')
    with uv have "lang (Star a # p) (u' @ v)" "accepts a y" "w = y # u' @ v"
      by auto
    then show ?thesis by blast
  qed
qed

declare lang.simps(3) [simp del]

lemma match_sound:
  "match adv p s = Some r \<Longrightarrow> \<exists>w. s = w @ r \<and> lang p w \<and> (adv \<longrightarrow> w \<noteq> [])"
proof (induction adv p s arbitrary: r rule: match.induct)
  case (1 adv s)
  then show ?case by (simp split: if_splits)
next
  case (2 adv a p)
  then show ?case by simp
next
  case (3 adv a p x xs)
  then obtain w where "xs = w @ r" "lang p w"
    by (auto split: if_splits)
  with 3 show ?case
    by (auto split: if_splits intro!: exI [of _ "x # w"])
next
  case (4 adv a p)
  then obtain w where "[] = w @ r" "lang p w" "adv \<longrightarrow> w \<noteq> []"
    by auto
  then show ?case
    by (auto intro: lang_Star_skip)
next
  case (5 adv a p x xs)
  show ?case
  proof (cases "accepts a x \<and> match False (Star a # p) xs \<noteq> None")
    case True
    with "5.prems" have "match False (Star a # p) xs = Some r"
      by (auto split: option.splits)
    with True "5.IH"(1) obtain w where w: "xs = w @ r" "lang (Star a # p) w"
      by blast
    with True have "x # xs = (x # w) @ r \<and> lang (Star a # p) (x # w) \<and> (adv \<longrightarrow> x # w \<noteq> [])"
      by (simp add: lang_Star_more)
    then show ?thesis by blast
  next
    case False
    with "5.prems" have m: "match adv p (x # xs) = Some r"
      by (auto split: if_splits option.splits)
    have "\<exists>w. x # xs = w @ r \<and> lang p w \<and> (adv \<longrightarrow> w \<noteq> [])"
    proof (cases "accepts a x")
      case True
      with False have "match False (Star a # p) xs = None" by simp
      from "5.IH"(2) [OF True this m] show ?thesis .
    next
      case False
      from "5.IH"(3) [OF False m] show ?thesis .
    qed
    then show ?thesis
      by (auto intro: lang_Star_skip)
  qed
qed

lemma match_complete:
  "lang p w \<Longrightarrow> adv \<longrightarrow> w \<noteq> [] \<Longrightarrow> match adv p (w @ t) \<noteq> None"
proof (induction adv p "w @ t" arbitrary: w t rule: match.induct)
  case (1 adv s)
  then show ?case by simp
next
  case (2 adv a p)
  then show ?case by simp
next
  case (3 adv a p x xs)
  from "3.prems" "3.hyps"(2) obtain v where "w = x # v" "accepts a x" "lang p v" "xs = v @ t"
    by (auto simp: Cons_eq_append_conv)
  with "3.hyps"(1) [of v t] show ?case
    using "3.hyps"(2) [symmetric] by simp
next
  case (4 adv a p)
  from "4.prems"(1) have "lang p w"
    using "4.hyps"(2) by (auto dest: lang_Star_cases)
  with 4 show ?case
    by simp
next
  case (5 adv a p x xs)
  note eq = "5.hyps"(4) [symmetric]
  from lang_Star_cases [OF "5.prems"(1)] show ?case
  proof
    assume l: "lang p w"
    show ?thesis
    proof (cases "accepts a x")
      case True
      show ?thesis
      proof (cases "match False (Star a # p) xs")
        case None
        from "5.hyps"(2) [OF True None "5.hyps"(4) l "5.prems"(2)] True None
        show ?thesis
          using eq by simp
      next
        case (Some r)
        with True show ?thesis
          using eq by simp
      qed
    next
      case False
      from "5.hyps"(3) [OF False "5.hyps"(4) l "5.prems"(2)] False
      show ?thesis
        using eq by simp
    qed
  next
    assume "\<exists>y w'. w = y # w' \<and> accepts a y \<and> lang (Star a # p) w'"
    then obtain y w' where w: "w = y # w'" "accepts a y" "lang (Star a # p) w'"
      by blast
    with "5.hyps"(4) have x: "x = y" "xs = w' @ t" "accepts a x"
      by auto
    from "5.hyps"(1) [OF x(3) x(2) w(3)] have "match False (Star a # p) xs \<noteq> None"
      using x(2) by simp
    then show ?thesis
      using x eq by (auto split: option.splits)
  qed
qed

subsection \<open>Search and the loop for a pattern that begins with a literal\<close>

text \<open>
  Such a pattern has no empty match, so the \<^verbatim>\<open>must_advance\<close> state plays no role:
  \<open>search\<close> fails exactly on the texts without a match, and otherwise splits the
  text at the leftmost match.
\<close>

lemma anchored_lang_nonempty: "anchored p \<Longrightarrow> lang p w \<Longrightarrow> w \<noteq> []"
  by (cases p rule: anchored.cases) auto

lemma anchored_match: "anchored p \<Longrightarrow> match adv p s = match False p s"
  by (cases p rule: anchored.cases; cases s) auto

lemma match_iff_starts: "anchored p \<Longrightarrow> match adv p s \<noteq> None \<longleftrightarrow> starts p s"
proof
  assume "anchored p" "match adv p s \<noteq> None"
  then obtain r where "match adv p s = Some r" by auto
  from match_sound [OF this] show "starts p s"
    unfolding starts_def by blast
next
  assume a: "anchored p" and "starts p s"
  then obtain w t where "s = w @ t" "lang p w"
    unfolding starts_def by blast
  with match_complete [of p w adv t] anchored_lang_nonempty [OF a] show "match adv p s \<noteq> None"
    by auto
qed

lemma no_match_iff: "no_match p s \<longleftrightarrow> (\<forall>j\<le>length s. \<not> starts p (drop j s))"
proof
  assume n: "no_match p s"
  show "\<forall>j\<le>length s. \<not> starts p (drop j s)"
  proof (intro allI impI notI)
    fix j assume "j \<le> length s" "starts p (drop j s)"
    then obtain w t where "drop j s = w @ t" "lang p w"
      unfolding starts_def by blast
    then have "take j s @ drop j s = take j s @ w @ t" "lang p w"
      by simp_all
    then have "s = take j s @ w @ t" "lang p w"
      by (simp_all only: append_take_drop_id)
    with n show False
      unfolding no_match_def by blast
  qed
next
  assume r: "\<forall>j\<le>length s. \<not> starts p (drop j s)"
  show "no_match p s"
    unfolding no_match_def
  proof (intro allI impI notI)
    fix pre w post assume "s = pre @ w @ post" "lang p w"
    then have "starts p (drop (length pre) s)" "length pre \<le> length s"
      unfolding starts_def by auto
    with r show False by blast
  qed
qed

lemma no_match_Cons: "no_match p (x # xs) \<longleftrightarrow> \<not> starts p (x # xs) \<and> no_match p xs"
proof -
  have "(\<forall>j\<le>Suc (length xs). \<not> starts p (drop j (x # xs)))
      \<longleftrightarrow> \<not> starts p (x # xs) \<and> (\<forall>j\<le>length xs. \<not> starts p (drop j xs))"
    (is "?l \<longleftrightarrow> ?r")
  proof
    assume l: ?l
    have "\<not> starts p (drop (Suc j) (x # xs))" if "j \<le> length xs" for j
      using l that by (metis Suc_le_mono)
    with l show ?r
      by (metis drop0 drop_Suc_Cons le0)
  next
    assume r: ?r
    show ?l
    proof (intro allI impI)
      fix j assume "j \<le> Suc (length xs)"
      with r show "\<not> starts p (drop j (x # xs))"
        by (cases j) auto
    qed
  qed
  then show ?thesis
    by (simp add: no_match_iff)
qed

lemma no_match_Nil: "no_match p [] \<longleftrightarrow> \<not> starts p []"
  by (simp add: no_match_iff)

lemma search_None: "anchored p \<Longrightarrow> search adv p s = None \<longleftrightarrow> no_match p s"
proof (induction s arbitrary: adv)
  case Nil
  then show ?case
    using match_iff_starts [of p adv "[]"] by (auto simp: no_match_Nil)
next
  case (Cons x xs)
  then show ?case
    using match_iff_starts [of p adv "x # xs"]
    by (auto simp: no_match_Cons split: option.splits)
qed

lemma search_Some:
  "anchored p \<Longrightarrow> search adv p s = Some (pre, rest) \<Longrightarrow>
     \<exists>m. s = pre @ m @ rest \<and> lang p m \<and> (\<forall>j<length pre. \<not> starts p (drop j s))"
proof (induction s arbitrary: adv pre rest)
  case Nil
  then obtain "pre = []" "match adv p [] = Some rest"
    by auto
  with match_sound [of adv p "[]" rest] show ?case
    by auto
next
  case (Cons x xs)
  show ?case
  proof (cases "match adv p (x # xs)")
    case (Some r)
    with Cons.prems have "pre = []" "r = rest" by auto
    with Some match_sound [of adv p "x # xs" rest] show ?thesis
      by auto
  next
    case None
    with Cons.prems obtain pre' where s: "search False p xs = Some (pre', rest)"
      and pre: "pre = x # pre'"
      by auto
    from Cons.IH [OF Cons.prems(1) s] obtain m where m: "xs = pre' @ m @ rest" "lang p m"
      "\<forall>j<length pre'. \<not> starts p (drop j xs)"
      by blast
    from None match_iff_starts [OF Cons.prems(1), of adv "x # xs"]
    have n0: "\<not> starts p (x # xs)" by simp
    have "\<not> starts p (drop j (x # xs))" if "j < length pre" for j
      using that n0 m(3) pre by (cases j) auto
    with m pre show ?thesis
      by auto
  qed
qed

declare subn_loop.simps [simp del]

lemma subn_loop_none:
  assumes "anchored p" "no_match p s"
  shows "subn_loop p repl adv s = (s, 0)"
proof -
  from assms have "search adv p s = None"
    by (simp add: search_None)
  then show ?thesis
    by (subst subn_loop.simps) simp
qed

lemma subn_loop_more:
  assumes "anchored p" "search adv p s = Some (pre, rest)"
  shows "subn_loop p repl adv s =
    (pre @ repl @ fst (subn_loop p repl False rest), Suc (snd (subn_loop p repl False rest)))"
proof -
  from search_Some [OF assms] obtain m where "s = pre @ m @ rest" "lang p m"
    by blast
  with anchored_lang_nonempty [OF assms(1)] have "length pre + length rest \<noteq> length s"
    by auto
  with assms(2) show ?thesis
    by (subst subn_loop.simps) (simp split: prod.splits)
qed

lemma subn_loop_replaced_all:
  "anchored p \<Longrightarrow>
     replaced_all p repl s (fst (subn_loop p repl adv s)) (snd (subn_loop p repl adv s))"
proof (induction s arbitrary: adv rule: length_induct)
  case (1 s)
  show ?case
  proof (cases "search adv p s")
    case None
    with "1.prems" have "no_match p s"
      by (simp add: search_None)
    with "1.prems" show ?thesis
      by (simp add: subn_loop_none replaced_all.none)
  next
    case (Some a)
    obtain pre rest where a: "a = (pre, rest)" by (cases a)
    with Some have s: "search adv p s = Some (pre, rest)" by simp
    from search_Some [OF "1.prems" s] obtain m where m: "s = pre @ m @ rest" "lang p m"
      "\<forall>j<length pre. \<not> starts p (drop j s)"
      by blast
    have ne: "m \<noteq> []"
      using anchored_lang_nonempty [OF "1.prems" m(2)] .
    with m(1) have "length rest < length s" by simp
    with "1.IH" "1.prems"
    have "replaced_all p repl rest (fst (subn_loop p repl False rest))
            (snd (subn_loop p repl False rest))"
      by blast
    from replaced_all.more [OF m(2) ne _ this, of pre] m(3)
    have "replaced_all p repl (pre @ m @ rest) (pre @ repl @ fst (subn_loop p repl False rest))
            (Suc (snd (subn_loop p repl False rest)))"
      unfolding m(1) by blast
    then show ?thesis
      unfolding subn_loop_more [OF "1.prems" s] fst_conv snd_conv m(1) [symmetric] .
  qed
qed

subsection \<open>A stable replacement makes no new match\<close>

text \<open>
  A match in the new text would begin in the text before the replacement, in
  the replacement, or behind it.  Behind it there is none by induction; inside
  the replacement the leading literal begins nowhere but at its start, and
  there the non-whitespace text differs; a match that begins before the
  replacement and reaches into it either ends inside the leading literal, and
  then it was a match of the old text, or it holds the leading literal a
  second time, which the non-whitespace text of the pattern excludes.
\<close>

lemma tails_all_drop: "tails_all P xs \<Longrightarrow> j < length xs \<Longrightarrow> P (drop j xs)"
proof (induction xs arbitrary: j)
  case Nil
  then show ?case by simp
next
  case (Cons x xs)
  then show ?case by (cases j) auto
qed

lemma tails_all_tl: "tails_all P (tl xs) \<Longrightarrow> j \<in> {1..<length xs} \<Longrightarrow> P (drop j xs)"
  using tails_all_drop [of P "tl xs" "j - 1"] by (cases xs; cases j) auto

lemma skel_append: "skel (a @ b) = skel a @ skel b"
  by (simp add: skel_def)

lemma skel_prefix: "prefix a b \<Longrightarrow> prefix (skel a) (skel b)"
  by (auto simp: prefix_def skel_append)

lemma lang_skel: "crisp p \<Longrightarrow> lang p w \<Longrightarrow> skel w = skel (lits p)"
proof (induction p arbitrary: w rule: crisp.induct)
  case (3 p)
  from "3.prems"(2) obtain u v where "w = u @ v" "list_all (accepts Space) u" "lang p v"
    by (auto simp: lang.simps(3))
  moreover from this have "skel u = []"
    by (simp add: skel_def list_all_iff)
  ultimately show ?case
    using 3 by (simp add: skel_append)
qed (auto simp: skel_def)

lemma lang_lead: "lang p w \<Longrightarrow> prefix (lead p) w"
  by (induction p arbitrary: w rule: lead.induct) auto

lemma stable_anchored: "patch_stable p repl \<Longrightarrow> anchored p"
  by (cases p rule: lead.cases) (auto simp: patch_stable_def)

lemma skel_lead_nonempty:
  assumes "lead p \<noteq> []" "\<not> isspace (hd (lead p))"
  shows "skel (lead p) \<noteq> []"
  using assms by (cases "lead p") (auto simp: skel_def)

lemma patch_frame:
  assumes st: "patch_stable p repl"
    and m: "lang p m"
    and left: "\<forall>j<length pre. \<not> starts p (drop j (pre @ m @ rest))"
    and out: "no_match p out"
  shows "no_match p (pre @ repl @ out)"
  unfolding no_match_iff
proof (intro allI impI notI)
  fix j
  assume "j \<le> length (pre @ repl @ out)" and "starts p (drop j (pre @ repl @ out))"
  then obtain w t where wt: "drop j (pre @ repl @ out) = w @ t" and w: "lang p w"
    unfolding starts_def by blast
  let ?L = "lead p" and ?K = "skel (lits p)"
  from st have simple: "crisp p" and L: "?L \<noteq> []" "\<not> isspace (hd ?L)"
    and Lr: "prefix ?L repl"
    and c3: "\<not> comparable ?K (skel repl)"
    and t4: "tails_all (\<lambda>t. \<not> comparable ?L t) (tl repl)"
    and t5: "tails_all (\<lambda>t. \<not> prefix (skel ?L) t) (tl ?K)"
    by (auto simp: patch_stable_def)
  have c4: "\<forall>j\<in>{1..<length repl}. \<not> comparable ?L (drop j repl)"
    using tails_all_tl [OF t4] by blast
  have c5: "\<forall>i\<in>{1..<length ?K}. \<not> prefix (skel ?L) (drop i ?K)"
    using tails_all_tl [OF t5] by blast
  have Lw: "prefix ?L w" and Lm: "prefix ?L m"
    using w m by (auto intro: lang_lead)
  have Kw: "skel w = ?K"
    using simple w by (rule lang_skel)
  have pw: "prefix w (drop j (pre @ repl @ out))"
    using wt by (simp add: prefix_def)
  consider (a) "j < length pre" | (b) "j = length pre"
    | (c) "length pre < j" "j < length pre + length repl" | (d) "length pre + length repl \<le> j"
    by linarith
  then show False
  proof cases
    case a
    define d where "d = drop j pre"
    from a have d: "d \<noteq> []" "drop j (pre @ repl @ out) = d @ repl @ out"
      "drop j (pre @ m @ rest) = d @ m @ rest"
      by (simp_all add: d_def)
    show False
    proof (cases "length w \<le> length d + length ?L")
      case True
      from Lr have "prefix (d @ ?L) (d @ repl @ out)"
        by (auto simp: prefix_def)
      moreover from pw d(2) have "prefix w (d @ repl @ out)"
        by simp
      moreover from True have "length w \<le> length (d @ ?L)"
        by simp
      ultimately have "prefix w (d @ ?L)"
        by (metis prefix_length_prefix)
      moreover from Lm have "prefix (d @ ?L) (d @ m @ rest)"
        by (auto simp: prefix_def)
      ultimately have "prefix w (d @ m @ rest)"
        by (rule prefix_order.trans)
      with w d(3) have "starts p (drop j (pre @ m @ rest))"
        unfolding starts_def prefix_def by auto
      with left a show False by blast
    next
      case False
      from Lr have "prefix (d @ ?L) (d @ repl @ out)"
        by (auto simp: prefix_def)
      moreover from pw d(2) have "prefix w (d @ repl @ out)"
        by simp
      moreover from False have "length (d @ ?L) \<le> length w"
        by simp
      ultimately have "prefix (d @ ?L) w"
        by (rule prefix_length_prefix)
      then obtain v where v: "w = d @ ?L @ v"
        by (auto simp: prefix_def)
      with Lw d(1) L(1) have "hd d = hd ?L"
        by (cases d; cases ?L) (auto simp: prefix_def)
      with L(2) d(1) have sd: "skel d \<noteq> []"
        by (cases d) (auto simp: skel_def)
      from v Kw have K: "?K = skel d @ skel ?L @ skel v"
        by (simp add: skel_append)
      from skel_lead_nonempty [OF L] K sd have "length (skel d) \<in> {1..<length ?K}"
        by (cases "skel d"; cases "skel ?L") auto
      moreover from K have "prefix (skel ?L) (drop (length (skel d)) ?K)"
        by simp
      ultimately show False
        using c5 by blast
    qed
  next
    case b
    with pw have "prefix w (repl @ out)" by simp
    moreover have "prefix repl (repl @ out)" by simp
    ultimately have "prefix w repl \<or> prefix repl w"
      by (rule prefix_same_cases)
    then have "comparable ?K (skel repl)"
      unfolding comparable_def using Kw skel_prefix by metis
    with c3 show False by simp
  next
    case c
    define k where "k = j - length pre"
    from c have k: "k \<in> {1..<length repl}" "drop j (pre @ repl @ out) = drop k repl @ out"
      by (auto simp: k_def)
    with pw Lw have "prefix ?L (drop k repl @ out)"
      by (metis prefix_order.trans)
    moreover have "prefix (drop k repl) (drop k repl @ out)" by simp
    ultimately have "comparable ?L (drop k repl)"
      unfolding comparable_def by (rule prefix_same_cases)
    with c4 k(1) show False by blast
  next
    case d
    define k where "k = j - (length pre + length repl)"
    from d \<open>j \<le> length (pre @ repl @ out)\<close>
    have k: "k \<le> length out" and "drop j (pre @ repl @ out) = drop k out"
      by (auto simp: k_def)
    with wt have "drop k out = w @ t"
      by simp
    with w have "starts p (drop k out)"
      unfolding starts_def by blast
    with out k show False
      unfolding no_match_iff by blast
  qed
qed

lemma subn_loop_no_match:
  "patch_stable p repl \<Longrightarrow> no_match p (fst (subn_loop p repl adv s))"
proof (induction s arbitrary: adv rule: length_induct)
  case (1 s)
  note anch = stable_anchored [OF "1.prems"]
  show ?case
  proof (cases "search adv p s")
    case None
    with anch have "no_match p s"
      by (simp add: search_None)
    with anch show ?thesis
      by (simp add: subn_loop_none)
  next
    case (Some a)
    obtain pre rest where "a = (pre, rest)" by (cases a)
    with Some have s: "search adv p s = Some (pre, rest)" by simp
    from search_Some [OF anch s] obtain m where m: "s = pre @ m @ rest" "lang p m"
      "\<forall>j<length pre. \<not> starts p (drop j s)"
      by blast
    from anchored_lang_nonempty [OF anch m(2)] m(1) have "length rest < length s"
      by simp
    with "1.IH" "1.prems" have "no_match p (fst (subn_loop p repl False rest))"
      by blast
    from patch_frame [OF "1.prems" m(2) _ this, of pre rest] m(3)
    have "no_match p (pre @ repl @ fst (subn_loop p repl False rest))"
      unfolding m(1) by blast
    then show ?thesis
      unfolding subn_loop_more [OF anch s] fst_conv .
  qed
qed

lemma subn_loop_idem:
  assumes "patch_stable p repl"
  shows "subn_loop p repl adv' (fst (subn_loop p repl adv s)) = (fst (subn_loop p repl adv s), 0)"
  using subn_loop_no_match [OF assms] stable_anchored [OF assms]
  by (simp add: subn_loop_none)

subsection \<open>The three patterns, compiled\<close>

lemma compile_old_user_pattern:
  "compile old_user_pattern =
     Some (Inr (segs [''user: {'', ''id: string;'', ''name: string | null;'',
                      ''email: string | null;'', ''profile?:'']))"
  by (simp add: old_user_pattern_def backslash_def beyond_def escaped_def ascii_alnum_def
      item_cons_def lit_def)

lemma compile_old_consensus_pattern:
  "compile old_consensus_pattern =
     Some (Inr (segs [''user: {'', ''select: {'', ''id: true,'', ''name: true,'',
                      ''email: true,'', ''},'', ''},'']))"
  by (simp add: old_consensus_pattern_def backslash_def beyond_def escaped_def ascii_alnum_def
      item_cons_def lit_def)

lemma compile_old_pattern:
  "compile old_pattern =
     Some (Inr (segs [''user: {'', ''include: {'', ''profile: true,'', ''},'', ''},'']))"
  by (simp add: old_pattern_def backslash_def beyond_def escaped_def ascii_alnum_def
      item_cons_def lit_def)

lemma stable_user:
  "patch_stable (segs [''user: {'', ''id: string;'', ''name: string | null;'',
                 ''email: string | null;'', ''profile?:'']) new_user_replacement"
  by (simp add: patch_stable_def lit_def new_user_replacement_def isspace_def skel_def comparable_def)

lemma stable_consensus:
  "patch_stable (segs [''user: {'', ''select: {'', ''id: true,'', ''name: true,'', ''email: true,'',
                 ''},'', ''},'']) new_consensus_replacement"
  by (simp add: patch_stable_def lit_def new_consensus_replacement_def isspace_def skel_def comparable_def)

lemma stable_query:
  "patch_stable (segs [''user: {'', ''include: {'', ''profile: true,'', ''},'', ''},'']) new_replacement"
  by (simp add: patch_stable_def lit_def new_replacement_def isspace_def skel_def comparable_def)

subsection \<open>The match at a place is unique\<close>

text \<open>
  In a crisp pattern the whitespace a repetition takes is fixed by the text, so
  two words of the pattern that begin at the same place are equal, and the
  matcher returns exactly what follows the word.
\<close>

lemma spaces_split:
  "list_all isspace a \<Longrightarrow> b \<noteq> [] \<Longrightarrow> \<not> isspace (hd b) \<Longrightarrow>
     takeWhile isspace (a @ b @ c) = a \<and> dropWhile isspace (a @ b @ c) = b @ c"
proof (induction a)
  case Nil
  then show ?case by (cases b) simp_all
next
  case (Cons x a)
  then show ?case by simp
qed

lemma spaces_then_word:
  assumes "list_all isspace u" "list_all isspace u'" "v \<noteq> []" "\<not> isspace (hd v)"
    "v' \<noteq> []" "\<not> isspace (hd v')" "u @ v @ t = u' @ v' @ t'"
  shows "u = u' \<and> v @ t = v' @ t'"
proof -
  from spaces_split [OF assms(1,3,4), of t]
  have "takeWhile isspace (u @ v @ t) = u" "dropWhile isspace (u @ v @ t) = v @ t"
    by blast+
  moreover from spaces_split [OF assms(2,5,6), of t']
  have "takeWhile isspace (u' @ v' @ t') = u'" "dropWhile isspace (u' @ v' @ t') = v' @ t'"
    by blast+
  ultimately show ?thesis
    unfolding assms(7) by simp
qed

lemma lang_unique:
  "crisp p \<Longrightarrow> lang p w \<Longrightarrow> lang p w' \<Longrightarrow> w @ t = w' @ t' \<Longrightarrow> w = w'"
proof (induction p arbitrary: w w' rule: crisp.induct)
  case 1
  then show ?case by simp
next
  case (2 c p)
  then show ?case by auto
next
  case (3 p)
  from "3.prems"(2) obtain u v where uv: "w = u @ v" "list_all isspace u" "lang p v"
    by (auto simp: lang.simps(3) list_all_iff)
  from "3.prems"(3) obtain u' v' where uv': "w' = u' @ v'" "list_all isspace u'" "lang p v'"
    by (auto simp: lang.simps(3) list_all_iff)
  from "3.prems"(1) have L: "lead p \<noteq> []" "\<not> isspace (hd (lead p))" and cp: "crisp p"
    by simp_all
  have hd: "x \<noteq> [] \<and> \<not> isspace (hd x)" if "lang p x" for x
    using lang_lead [OF that] L by (cases "lead p") (auto simp: prefix_def)
  from "3.prems"(4) uv(1) uv'(1) have "u @ v @ t = u' @ v' @ t'"
    by simp
  with spaces_then_word [OF uv(2) uv'(2), of v v' t t'] hd [OF uv(3)] hd [OF uv'(3)]
  have "u = u'" "v @ t = v' @ t'"
    by simp_all
  with "3.IH" [OF cp uv(3) uv'(3)] uv(1) uv'(1) show ?case
    by simp
qed simp_all

lemma match_exact:
  assumes "crisp p" "lang p w" "adv \<longrightarrow> w \<noteq> []"
  shows "match adv p (w @ t) = Some t"
proof -
  from match_complete [OF assms(2,3), of t] obtain r where r: "match adv p (w @ t) = Some r"
    by auto
  from match_sound [OF r] obtain w' where w': "w @ t = w' @ r" "lang p w'"
    by blast
  from lang_unique [OF assms(1,2) w'(2) w'(1)] w'(1) have "r = t"
    by simp
  with r show ?thesis by simp
qed

lemma search_exact:
  assumes "crisp p" "anchored p" "lang p m" "\<forall>j<length pre. \<not> starts p (drop j (pre @ m @ rest))"
  shows "search adv p (pre @ m @ rest) = Some (pre, rest)"
  using assms(4)
proof (induction pre arbitrary: adv)
  case Nil
  from match_exact [OF assms(1,3), of adv rest] anchored_lang_nonempty [OF assms(2,3)]
  have "match adv p (m @ rest) = Some rest"
    by simp
  then show ?case
    by (cases "m @ rest") auto
next
  case (Cons x pre)
  from Cons.prems have "\<not> starts p ((x # pre) @ m @ rest)"
    by force
  with match_iff_starts [OF assms(2), of adv "(x # pre) @ m @ rest"]
  have n: "match adv p (x # pre @ m @ rest) = None"
    by simp
  have "\<forall>j<length pre. \<not> starts p (drop j (pre @ m @ rest))"
  proof (intro allI impI)
    fix j assume "j < length pre"
    with Cons.prems have "\<not> starts p (drop (Suc j) ((x # pre) @ m @ rest))"
      by (metis Suc_less_eq length_Cons)
    then show "\<not> starts p (drop j (pre @ m @ rest))"
      by simp
  qed
  from Cons.IH [OF this] n show ?case
    by simp
qed

lemma subn_loop_once:
  assumes "crisp p" "anchored p" "lang p m"
    "\<forall>j<length pre. \<not> starts p (drop j (pre @ m @ rest))" "no_match p rest"
  shows "subn_loop p repl adv (pre @ m @ rest) = (pre @ repl @ rest, 1)"
  using subn_loop_more [OF assms(2) search_exact [OF assms(1-4)]]
    subn_loop_none [OF assms(2,5)]
  by simp

subsection \<open>Tokens with whitespace between them\<close>

lemma tokens_nonempty: "tokens p \<noteq> []"
  by (induction p rule: tokens.induct) (auto split: list.splits)

lemma lang_fragment:
  "crisp p \<Longrightarrow> list_all (list_all isspace) gs \<Longrightarrow> length gs = length (tokens p) - 1 \<Longrightarrow>
     lang p (fragment (tokens p) gs)"
proof (induction p arbitrary: gs rule: crisp.induct)
  case 1
  then show ?case by simp
next
  case (2 c p)
  obtain t ts where t: "tokens p = t # ts"
    using tokens_nonempty [of p] by (cases "tokens p") auto
  with 2 have l: "lang p (fragment (t # ts) gs)"
    by simp
  have "fragment ((c # t) # ts) gs = c # fragment (t # ts) gs"
    by (cases ts; cases gs) auto
  with l t show ?case
    by simp
next
  case (3 p)
  obtain t ts where t: "tokens p = t # ts"
    using tokens_nonempty [of p] by (cases "tokens p") auto
  with "3.prems" obtain g gs' where g: "gs = g # gs'" "list_all isspace g"
    "list_all (list_all isspace) gs'" "length gs' = length (tokens p) - 1"
    by (cases gs) auto
  from "3.IH" [OF _ g(3,4)] "3.prems"(1) have "lang p (fragment (tokens p) gs')"
    by simp
  with g t show ?case
    by (auto simp: lang.simps(3) list_all_iff)
qed simp_all

subsection \<open>The literals of the scripts and the relation \<open>replaced_all\<close>\<close>

lemma no_backslash_user: "backslash \<notin> set new_user_replacement"
  by (simp add: new_user_replacement_def backslash_def)

lemma no_backslash_consensus: "backslash \<notin> set new_consensus_replacement"
  by (simp add: new_consensus_replacement_def backslash_def)

lemma no_backslash_query: "backslash \<notin> set new_replacement"
  by (simp add: new_replacement_def backslash_def)

lemma patches_compiled:
  assumes "(pattern, repl) \<in> set patches"
  shows "\<exists>p. compile pattern = Some (Inr p) \<and> patch_stable p repl \<and> backslash \<notin> set repl"
  using assms compile_old_user_pattern compile_old_consensus_pattern compile_old_pattern
    stable_user stable_consensus stable_query
    no_backslash_user no_backslash_consensus no_backslash_query
  unfolding patches_def by auto

lemma re_subn_compiled:
  "compile pattern = Some (Inr p) \<Longrightarrow> backslash \<notin> set repl \<Longrightarrow>
     re_subn pattern repl s = Some (Inr (subn_loop p repl False s))"
  by (simp add: re_subn_def)

lemma re_sub_compiled:
  "compile pattern = Some (Inr p) \<Longrightarrow> backslash \<notin> set repl \<Longrightarrow>
     re_sub pattern repl s = Some (Inr (fst (subn_loop p repl False s)))"
  by (simp add: re_sub_def re_subn_def split: prod.splits)

lemma stable_crisp: "patch_stable p repl \<Longrightarrow> crisp p"
  by (simp add: patch_stable_def)

lemma no_match_search: "no_match p s \<Longrightarrow> search adv p s = None"
proof (induction s arbitrary: adv)
  case Nil
  show ?case
  proof (cases "match adv p []")
    case None
    then show ?thesis by simp
  next
    case (Some r)
    from match_sound [OF this] Nil show ?thesis
      unfolding no_match_def by auto
  qed
next
  case (Cons x xs)
  have "match adv p (x # xs) = None"
  proof (cases "match adv p (x # xs)")
    case (Some r)
    from match_sound [OF this] obtain w where "x # xs = [] @ w @ r" "lang p w"
      by auto
    with Cons.prems show ?thesis
      unfolding no_match_def by blast
  qed simp
  moreover have "no_match p xs"
    unfolding no_match_def
  proof (intro allI impI)
    fix pre w post assume "xs = pre @ w @ post"
    then have "x # xs = (x # pre) @ w @ post" by simp
    with Cons.prems show "\<not> lang p w"
      unfolding no_match_def by blast
  qed
  ultimately show ?case
    using Cons.IH by simp
qed

lemma replaced_all_unique:
  assumes "crisp p" "anchored p"
  shows "replaced_all p repl s out n \<Longrightarrow> replaced_all p repl s out' n' \<Longrightarrow> out' = out \<and> n' = n"
proof (induction arbitrary: out' n' rule: replaced_all.induct)
  case (none s)
  from none.prems show ?case
  proof (cases rule: replaced_all.cases)
    case none
    then show ?thesis by simp
  next
    case (more m g rest out n)
    with none.hyps show ?thesis
      unfolding no_match_def by blast
  qed
next
  case (more m g rest out n)
  from more.prems show ?case
  proof (cases rule: replaced_all.cases)
    case none
    with more.hyps(1) show ?thesis
      unfolding no_match_def by blast
  next
    case (more m' g' rest' out2 n2)
    have st: "starts p (drop (length g) (g @ m @ rest))" "starts p (drop (length g') (g' @ m' @ rest'))"
      using \<open>lang p m\<close> \<open>lang p m'\<close> unfolding starts_def by auto
    have "length g = length g'"
    proof (rule ccontr)
      assume "length g \<noteq> length g'"
      then consider "length g < length g'" | "length g' < length g"
        by linarith
      then show False
      proof cases
        case 1
        with more(6) st(1) more(1) show False by metis
      next
        case 2
        with \<open>\<forall>j<length g. \<not> starts p (drop j (g @ m @ rest))\<close> st(2) more(1) show False
          by metis
      qed
    qed
    with more(1) have g: "g' = g" "m @ rest = m' @ rest'"
      by auto
    from lang_unique [OF assms(1) \<open>lang p m\<close> \<open>lang p m'\<close> g(2)] g(2) have "m' = m" "rest' = rest"
      by auto
    with more.IH [of out2 n2] more(2,3,7) g(1) show ?thesis
      by simp
  qed
qed


lemma anchored_no_match_Nil: "anchored p \<Longrightarrow> no_match p []"
  using anchored_lang_nonempty unfolding no_match_def by auto

subsection \<open>The loop on a pattern with empty matches\<close>

text \<open>
  The patterns of the scripts have no empty match.  On a pattern that has, the
  loop gives what Python (3.7 and later) gives:
  \<^verbatim>\<open>re.subn('x*', '-', 'abxd') == ('-a-b--d-', 5)\<close>.
\<close>

lemma subn_empty_matches: "re_subn ''x*'' ''-'' ''abxd'' = Some (Inr (''-a-b--d-'', 5))"
  by (simp add: re_subn_def beyond_def item_cons_def backslash_def subn_loop.simps)

subsection \<open>The answers of \<open>compile\<close>\<close>

text \<open>
  \<open>compile\<close> answers with an error exactly on patterns that Python rejects, and
  with \<open>None\<close> on patterns that Python accepts and the model does not cover.
\<close>

lemma compile_answers:
  "compile ''('' = Some (Inl Re_error) \<and> compile ''a)'' = Some (Inl Re_error) \<and>
   compile ''*a'' = Some (Inl Re_error) \<and> compile ''a**'' = Some (Inl Re_error) \<and>
   compile [CHR ''a'', backslash] = Some (Inl Re_error) \<and>
   compile ''a+'' = None \<and> compile ''a.c'' = None \<and>
   compile [backslash, CHR ''d''] = None \<and>
   compile ''a}b]'' = Some (Inr (lit ''a}b]'')) \<and>
   compile [backslash, CHR '',''] = Some (Inr (lit '',''))"
  by (simp add: backslash_def beyond_def escaped_def ascii_alnum_def item_cons_def lit_def)

section \<open>The substitution\<close>

text \<open>
  Claim C1.  For each of the three scripts and every document, \<^verbatim>\<open>re.sub\<close> with
  the script's pattern and replacement returns the document with every
  non-overlapping match, from left to right, replaced by the replacement, and
  the count of \<^verbatim>\<open>re.subn\<close> is the number of replacements: the result satisfies
  \<open>replaced_all\<close>, and it is the only text and count that do.
\<close>

theorem sub_replaces_every_match:
  assumes "(pattern, repl) \<in> set patches"
  shows "\<exists>p out n. compile pattern = Some (Inr p) \<and>
           re_subn pattern repl doc = Some (Inr (out, n)) \<and> re_sub pattern repl doc = Some (Inr out) \<and>
           replaced_all p repl doc out n \<and>
           (\<forall>out' n'. replaced_all p repl doc out' n' \<longrightarrow> out' = out \<and> n' = n)"
proof -
  from patches_compiled [OF assms] obtain p where p: "compile pattern = Some (Inr p)"
    "patch_stable p repl" "backslash \<notin> set repl"
    by blast
  let ?r = "subn_loop p repl False doc"
  note a = stable_anchored [OF p(2)] and c = stable_crisp [OF p(2)]
  have r: "replaced_all p repl doc (fst ?r) (snd ?r)"
    using a by (rule subn_loop_replaced_all)
  have "re_subn pattern repl doc = Some (Inr (fst ?r, snd ?r))" "re_sub pattern repl doc = Some (Inr (fst ?r))"
    using re_subn_compiled [OF p(1,3)] re_sub_compiled [OF p(1,3)] by simp_all
  moreover have "\<forall>out' n'. replaced_all p repl doc out' n' \<longrightarrow> out' = fst ?r \<and> n' = snd ?r"
    using replaced_all_unique [OF c a r] by blast
  ultimately show ?thesis
    using p(1) r by blast
qed

theorem sub_replaces_every_match_witness:
  "\<exists>p. compile old_pattern = Some (Inr p) \<and>
     re_subn old_pattern new_replacement
       ''a user: {include: {\<newline>profile: true,  },},b user: { }'' =
       Some (Inr (''a '' @ new_replacement @ ''b user: { }'', 1)) \<and>
     replaced_all p new_replacement
       ''a user: {include: {\<newline>profile: true,  },},b user: { }''
       (''a '' @ new_replacement @ ''b user: { }'') 1"
proof -
  have "re_subn old_pattern new_replacement
       ''a user: {include: {\<newline>profile: true,  },},b user: { }'' =
       Some (Inr (''a '' @ new_replacement @ ''b user: { }'', 1))"
    by (simp add: re_subn_def compile_old_pattern no_backslash_query lit_def isspace_def
        subn_loop.simps)
  with sub_replaces_every_match [of old_pattern new_replacement
      "''a user: {include: {\<newline>profile: true,  },},b user: { }''"]
  show ?thesis
    by (auto simp: patches_def)
qed

text \<open>
  Claim C2.  For each of the three scripts and every document, a second
  substitution on the result of the first finds no match and returns that
  result unchanged.
\<close>

theorem sub_idempotent:
  assumes "(pattern, repl) \<in> set patches"
  shows "\<exists>out n. re_subn pattern repl doc = Some (Inr (out, n)) \<and>
           re_subn pattern repl out = Some (Inr (out, 0)) \<and> re_sub pattern repl out = Some (Inr out)"
proof -
  from patches_compiled [OF assms] obtain p where p: "compile pattern = Some (Inr p)"
    "patch_stable p repl" "backslash \<notin> set repl"
    by blast
  let ?r = "subn_loop p repl False doc"
  have "subn_loop p repl False (fst ?r) = (fst ?r, 0)"
    using p(2) by (rule subn_loop_idem)
  then have "re_subn pattern repl (fst ?r) = Some (Inr (fst ?r, 0))" "re_sub pattern repl (fst ?r) = Some (Inr (fst ?r))"
    using re_subn_compiled [OF p(1,3)] re_sub_compiled [OF p(1,3)] by simp_all
  moreover have "re_subn pattern repl doc = Some (Inr (fst ?r, snd ?r))"
    using re_subn_compiled [OF p(1,3)] by simp
  ultimately show ?thesis
    by blast
qed

theorem sub_idempotent_witness:
  "re_subn old_user_pattern new_user_replacement
     ''user: {\<newline>  id: string;\<newline>  name: string | null;\<newline>  email: string | null;\<newline>  profile?: Profile;\<newline>}'' =
     Some (Inr (new_user_replacement @ '' Profile;\<newline>}'', 1)) \<and>
   re_subn old_user_pattern new_user_replacement (new_user_replacement @ '' Profile;\<newline>}'') =
     Some (Inr (new_user_replacement @ '' Profile;\<newline>}'', 0))"
proof -
  have "re_subn old_user_pattern new_user_replacement
     ''user: {\<newline>  id: string;\<newline>  name: string | null;\<newline>  email: string | null;\<newline>  profile?: Profile;\<newline>}'' =
     Some (Inr (new_user_replacement @ '' Profile;\<newline>}'', 1))"
    by (simp add: re_subn_def compile_old_user_pattern no_backslash_user lit_def isspace_def
        subn_loop.simps)
  with sub_idempotent [of old_user_pattern new_user_replacement
      "''user: {\<newline>  id: string;\<newline>  name: string | null;\<newline>  email: string | null;\<newline>  profile?: Profile;\<newline>}''"]
  show ?thesis
    by (auto simp: patches_def)
qed

text \<open>
  Claim C9.  On a document no part of which is a word of the pattern, the
  substitution returns the document as it is and counts 0 replacements.  This
  holds for every pattern of the fragment and every literal replacement.
\<close>

theorem sub_no_match_unchanged:
  assumes "compile pattern = Some (Inr p)" "backslash \<notin> set repl" "no_match p doc"
  shows "re_subn pattern repl doc = Some (Inr (doc, 0)) \<and> re_sub pattern repl doc = Some (Inr doc)"
proof -
  from assms(3) have "search False p doc = None"
    by (rule no_match_search)
  then have "subn_loop p repl False doc = (doc, 0)"
    by (subst subn_loop.simps) simp
  with re_subn_compiled [OF assms(1,2)] re_sub_compiled [OF assms(1,2)] show ?thesis
    by simp
qed

theorem sub_no_match_unchanged_witness:
  "no_match (segs [''user: {'', ''select: {'', ''id: true,'', ''name: true,'', ''email: true,'',
                   ''},'', ''},''])
     ''user: { select: { id: true, name: true, }, },'' \<and>
   re_subn old_consensus_pattern new_consensus_replacement
     ''user: { select: { id: true, name: true, }, },'' =
     Some (Inr (''user: { select: { id: true, name: true, }, },'', 0))"
proof -
  have nm: "no_match (segs [''user: {'', ''select: {'', ''id: true,'', ''name: true,'',
                   ''email: true,'', ''},'', ''},''])
     ''user: { select: { id: true, name: true, }, },''"
    by (subst search_None [symmetric, where adv = False])
      (simp_all add: lit_def isspace_def)
  from sub_no_match_unchanged [OF compile_old_consensus_pattern no_backslash_consensus nm] nm
  show ?thesis
    by simp
qed

section \<open>Whitespace between the tokens\<close>

text \<open>
  Claim C7.  The fixed tokens of a pattern are its literal pieces between the
  \<^verbatim>\<open>\s*\<close>.  Two fragments that are these tokens in order and differ only in
  the whitespace between them (any whitespace characters, also none and also
  line breaks) are matched alike by each script's pattern: it matches both, each
  from its first to its last character, and the substitution replaces each by
  the replacement.
\<close>

theorem whitespace_tolerant:
  assumes "(pattern, repl) \<in> set patches" and "compile pattern = Some (Inr p)"
    and "list_all (list_all isspace) gs" and "length gs = length (tokens p) - 1"
    and "list_all (list_all isspace) gs'" and "length gs' = length (tokens p) - 1"
  shows "match False p (fragment (tokens p) gs @ t) = Some t \<and>
         match False p (fragment (tokens p) gs' @ t) = Some t \<and>
         ((match False p (fragment (tokens p) gs) \<noteq> None) =
          (match False p (fragment (tokens p) gs') \<noteq> None)) \<and>
         re_subn pattern repl (fragment (tokens p) gs) = Some (Inr (repl, 1)) \<and>
         re_subn pattern repl (fragment (tokens p) gs') = Some (Inr (repl, 1))"
proof -
  from patches_compiled [OF assms(1)] assms(2) have st: "patch_stable p repl"
    and nb: "backslash \<notin> set repl"
    by auto
  note c = stable_crisp [OF st] and a = stable_anchored [OF st]
  have m: "match False p (fragment (tokens p) g @ u) = Some u"
    and s: "re_subn pattern repl (fragment (tokens p) g) = Some (Inr (repl, 1))"
    if "list_all (list_all isspace) g" "length g = length (tokens p) - 1" for g u
  proof -
    from lang_fragment [OF c that] have l: "lang p (fragment (tokens p) g)" .
    from match_exact [OF c l] show "match False p (fragment (tokens p) g @ u) = Some u"
      by simp
    from subn_loop_once [OF c a l, of "[]" "[]" repl False] anchored_no_match_Nil [OF a]
    show "re_subn pattern repl (fragment (tokens p) g) = Some (Inr (repl, 1))"
      by (simp add: re_subn_compiled [OF assms(2) nb])
  qed
  from m [OF assms(3,4), of t] m [OF assms(5,6), of t] m [OF assms(3,4), of "[]"]
    m [OF assms(5,6), of "[]"] s [OF assms(3,4)] s [OF assms(5,6)]
  show ?thesis
    by simp
qed

theorem whitespace_tolerant_witness:
  "match False (segs [''user: {'', ''include: {'', ''profile: true,'', ''},'', ''},''])
     (''user: {\<newline>  include: {\<newline>    profile: true,\<newline>  },\<newline>},'' @ '' rest'') = Some '' rest'' \<and>
   match False (segs [''user: {'', ''include: {'', ''profile: true,'', ''},'', ''},''])
     (''user: {include: {   profile: true,\<newline>\<newline>},},'' @ '' rest'') = Some '' rest'' \<and>
   re_subn old_pattern new_replacement ''user: {include: {   profile: true,\<newline>\<newline>},},'' =
     Some (Inr (new_replacement, 1))"
proof -
  let ?p = "segs [''user: {'', ''include: {'', ''profile: true,'', ''},'', ''},'']"
  have t: "tokens ?p = [''user: {'', ''include: {'', ''profile: true,'', ''},'', ''},'']"
    by (simp add: lit_def)
  have g: "list_all (list_all isspace) [''\<newline>  '', ''\<newline>    '', ''\<newline>  '', ''\<newline>'']"
    "length [''\<newline>  '', ''\<newline>    '', ''\<newline>  '', ''\<newline>''] = length (tokens ?p) - 1"
    "list_all (list_all isspace) ['''', ''   '', ''\<newline>\<newline>'', '''']"
    "length ['''', ''   '', ''\<newline>\<newline>'', ''''] = length (tokens ?p) - 1"
    unfolding t by (simp_all add: isspace_def)
  have "(old_pattern, new_replacement) \<in> set patches"
    by (simp add: patches_def)
  from whitespace_tolerant [OF this compile_old_pattern g, of "'' rest''"]
  show ?thesis
    unfolding t by simp
qed

text \<open>
  Whitespace inside a token is part of the literal: a second space in
  \<^verbatim>\<open>user: {\<close>, or none, is not matched.
\<close>

lemma whitespace_inside_token:
  "match False (segs [''user: {'', ''include: {'', ''profile: true,'', ''},'', ''},''])
     ''user:  {include: {profile: true,},},'' = None \<and>
   match False (segs [''user: {'', ''include: {'', ''profile: true,'', ''},'', ''},''])
     ''user:{include: {profile: true,},},'' = None \<and>
   re_subn old_pattern new_replacement ''user:  {include: {profile: true,},},'' =
     Some (Inr (''user:  {include: {profile: true,},},'', 0))"
  by (simp add: re_subn_def compile_old_pattern no_backslash_query lit_def isspace_def
      subn_loop.simps)

section \<open>The runs of the scripts\<close>

lemma readable_file_open_r: "readable_file path w \<longleftrightarrow> (\<exists>stored. open_r path w = Inr stored)"
  by (auto simp: readable_file_def open_r_def split: option.splits)

lemma accepts_write_open_w:
  "accepts_write path s w \<longleftrightarrow>
     (\<exists>w1 w2. open_w path w = Inr w1 \<and> f_write path s w1 = (w2, Inr ()))"
  by (auto simp: accepts_write_def open_w_def f_write_def split: option.splits)

lemma universal_newlines_no_CR: "CR \<notin> set s \<Longrightarrow> universal_newlines s = s"
  by (induction s rule: universal_newlines.induct) auto

lemma subn_loop_zero: "subn_loop p repl adv s = (out, 0) \<Longrightarrow> out = s"
  by (subst (asm) subn_loop.simps) (auto split: option.splits prod.splits)

lemma re_subn_zero: "re_subn pattern repl s = Some (Inr (out, 0)) \<Longrightarrow> out = s"
  by (auto simp: re_subn_def split: option.splits sum.splits if_splits dest: subn_loop_zero)

lemma re_subn_sub:
  "re_subn pattern repl s = Some (Inr (out, n)) \<Longrightarrow> re_sub pattern repl s = Some (Inr out)"
  by (simp add: re_sub_def)

lemma re_sub_subn:
  "re_sub pattern repl s = Some (Inr out) \<Longrightarrow> \<exists>n. re_subn pattern repl s = Some (Inr (out, n))"
  by (auto simp: re_sub_def split: option.splits sum.splits prod.splits)

lemma files_print: "files (fst (print msg w)) = files w"
  by (simp add: print_def split: fault.splits)

lemma script_written:
  assumes "files w path = Some stored" "path \<notin> unreadable w"
    "re_subn pattern repl (f_read stored) = Some (Inr (out, n))" "accepts_write path out w"
  shows "script path pattern repl msg w = Some (print msg (w\<lparr>files := (files w)(path \<mapsto> out)\<rparr>))"
  using assms re_subn_sub [OF assms(3)]
  by (auto simp: script_def open_r_def open_w_def f_write_def accepts_write_def
      split: option.splits)

lemma script_one_file:
  assumes "re_subn pattern repl (f_read stored) = Some (Inr (out, n))"
  shows "script path pattern repl msg (one_file path stored) =
           Some ((one_file path out)\<lparr>stdout := [msg]\<rparr>, Inr ())"
  by (subst script_written [OF _ _ assms])
    (simp_all add: one_file_def accepts_write_def print_def)

lemma script_not_readable:
  "\<not> readable_file path w \<Longrightarrow>
     script path pattern repl msg w =
       Some (w, Inl (if files w path = None then FileNotFoundError else PermissionError))"
  by (auto simp: script_def readable_file_def open_r_def split: option.splits)

lemma script_sub_fails:
  "files w path = Some stored \<Longrightarrow> re_sub pattern repl (f_read stored) = Some (Inl e) \<Longrightarrow>
     script path pattern repl msg w = Some (w, Inl (if path \<in> unreadable w then PermissionError else e))"
  by (auto simp: script_def open_r_def split: option.splits)

lemma script_not_writable:
  "path \<in> unwritable w \<Longrightarrow> script path pattern repl msg w = Some r \<Longrightarrow> fst r = w"
  by (auto simp: script_def open_r_def open_w_def split: option.splits sum.splits if_splits)

lemma script_write_fails:
  assumes "files w path = Some stored" "path \<notin> unreadable w"
    "re_subn pattern repl (f_read stored) = Some (Inr (out, n))" "path \<notin> unwritable w"
    "room w = Some k" "k < length out"
  shows "script path pattern repl msg w =
           Some (w\<lparr>files := (files w)(path \<mapsto> take k out)\<rparr>, Inl OSError)"
  using assms re_subn_sub [OF assms(3)]
  by (auto simp: script_def open_r_def open_w_def f_write_def split: option.splits)

lemma patches_re_subn:
  assumes "(pattern, repl) \<in> set patches"
  shows "\<exists>out n. re_subn pattern repl s = Some (Inr (out, n))"
proof -
  from patches_compiled [OF assms] obtain p where "compile pattern = Some (Inr p)"
    "backslash \<notin> set repl"
    by blast
  from re_subn_compiled [OF this, of s] show ?thesis
    by (cases "subn_loop p repl False s") auto
qed

lemma script_defined:
  assumes "(pattern, repl) \<in> set patches"
  shows "\<exists>r. script path pattern repl msg w = Some r"
proof (cases "open_r path w")
  case (Inl e)
  then show ?thesis
    by (simp add: script_def)
next
  case (Inr stored)
  from patches_re_subn [OF assms, of "f_read stored"] obtain out n
    where "re_subn pattern repl (f_read stored) = Some (Inr (out, n))"
    by blast
  from re_subn_sub [OF this] Inr show ?thesis
    by (auto simp: script_def split: sum.splits prod.splits)
qed


lemma script_no_write_fails:
  "path \<in> unwritable w \<Longrightarrow> script path pattern repl msg w = Some r \<Longrightarrow> snd r \<noteq> Inr ()"
  by (auto simp: script_def open_r_def open_w_def split: option.splits sum.splits if_splits)

lemma exit_status_print:
  "exit_status (snd (print msg w)) =
     (case stdout_fault w of No_fault \<Rightarrow> 0 | Write_fault \<Rightarrow> 1 | Flush_fault \<Rightarrow> 120)"
  by (simp add: print_def exit_status_def split: fault.splits)

lemma script_not_accepted:
  assumes "files w path = Some stored"
    "re_subn pattern repl (f_read stored) = Some (Inr (out, n))" "\<not> accepts_write path out w"
    "script path pattern repl msg w = Some r"
  shows "exit_status (snd r) = 1"
proof (cases "readable_file path w")
  case False
  from script_not_readable [OF this, of pattern repl msg] assms(4) show ?thesis
    by (auto simp: exit_status_def)
next
  case True
  with assms re_subn_sub [OF assms(2)] show ?thesis
    by (auto simp: script_def open_r_def open_w_def f_write_def accepts_write_def
        readable_file_def exit_status_def split: option.splits if_splits)
qed

section \<open>The scenarios\<close>

text \<open>
  Claim C5.  The substitution of \<^verbatim>\<open>fix_admin_type.py\<close> on the document of
  scenario 1 makes exactly one replacement, and the result has the fields
  \<open>id\<close>, \<open>name\<close>, \<open>email\<close>, \<open>adminNotes\<close>, \<open>adminLabels\<close>, \<open>adminUpdatedAt\<close>,
  \<open>profile?\<close> in this order: \<^verbatim>\<open>re.subn\<close> counts 1, \<^verbatim>\<open>re.sub\<close> (the call of the
  script) returns that text, and the script run on a file with the document
  leaves that text in the file.
\<close>

theorem scenario_1:
  "re_subn old_user_pattern new_user_replacement
     ''user: {\<newline>  id: string;\<newline>  name: string | null;\<newline>  email: string | null;\<newline>  profile?: Profile;\<newline>}'' =
     Some (Inr (''user: {\<newline>    id: string;\<newline>    name: string | null;\<newline>    email: string | null;\<newline>    adminNotes: string | null;\<newline>    adminLabels: string[];\<newline>    adminUpdatedAt: Date | null;\<newline>    profile?: Profile;\<newline>}'', 1)) \<and>
   re_sub old_user_pattern new_user_replacement
     ''user: {\<newline>  id: string;\<newline>  name: string | null;\<newline>  email: string | null;\<newline>  profile?: Profile;\<newline>}'' =
     Some (Inr ''user: {\<newline>    id: string;\<newline>    name: string | null;\<newline>    email: string | null;\<newline>    adminNotes: string | null;\<newline>    adminLabels: string[];\<newline>    adminUpdatedAt: Date | null;\<newline>    profile?: Profile;\<newline>}'') \<and>
   fix_admin_type (one_file admin_path
     ''user: {\<newline>  id: string;\<newline>  name: string | null;\<newline>  email: string | null;\<newline>  profile?: Profile;\<newline>}'') =
     Some ((one_file admin_path
       ''user: {\<newline>    id: string;\<newline>    name: string | null;\<newline>    email: string | null;\<newline>    adminNotes: string | null;\<newline>    adminLabels: string[];\<newline>    adminUpdatedAt: Date | null;\<newline>    profile?: Profile;\<newline>}'')
         \<lparr>stdout := [''Updated ApplicationWithUser type'']\<rparr>, Inr ()) \<and>
   in_order [''id:'', ''name:'', ''email:'', ''adminNotes:'', ''adminLabels:'', ''adminUpdatedAt:'',
             ''profile?:'']
     ''user: {\<newline>    id: string;\<newline>    name: string | null;\<newline>    email: string | null;\<newline>    adminNotes: string | null;\<newline>    adminLabels: string[];\<newline>    adminUpdatedAt: Date | null;\<newline>    profile?: Profile;\<newline>}''"
proof -
  have r: "f_read ''user: {\<newline>  id: string;\<newline>  name: string | null;\<newline>  email: string | null;\<newline>  profile?: Profile;\<newline>}'' =
      ''user: {\<newline>  id: string;\<newline>  name: string | null;\<newline>  email: string | null;\<newline>  profile?: Profile;\<newline>}''"
    by (simp add: f_read_def CR_def)
  have n: "re_subn old_user_pattern new_user_replacement
     ''user: {\<newline>  id: string;\<newline>  name: string | null;\<newline>  email: string | null;\<newline>  profile?: Profile;\<newline>}'' =
     Some (Inr (''user: {\<newline>    id: string;\<newline>    name: string | null;\<newline>    email: string | null;\<newline>    adminNotes: string | null;\<newline>    adminLabels: string[];\<newline>    adminUpdatedAt: Date | null;\<newline>    profile?: Profile;\<newline>}'', 1))"
    by (simp add: re_subn_def compile_old_user_pattern backslash_def lit_def isspace_def
        subn_loop.simps new_user_replacement_def)
  have o: "in_order [''id:'', ''name:'', ''email:'', ''adminNotes:'', ''adminLabels:'',
             ''adminUpdatedAt:'', ''profile?:'']
     ''user: {\<newline>    id: string;\<newline>    name: string | null;\<newline>    email: string | null;\<newline>    adminNotes: string | null;\<newline>    adminLabels: string[];\<newline>    adminUpdatedAt: Date | null;\<newline>    profile?: Profile;\<newline>}''"
    by simp
  from n r have "re_subn old_user_pattern new_user_replacement
     (f_read ''user: {\<newline>  id: string;\<newline>  name: string | null;\<newline>  email: string | null;\<newline>  profile?: Profile;\<newline>}'') =
     Some (Inr (''user: {\<newline>    id: string;\<newline>    name: string | null;\<newline>    email: string | null;\<newline>    adminNotes: string | null;\<newline>    adminLabels: string[];\<newline>    adminUpdatedAt: Date | null;\<newline>    profile?: Profile;\<newline>}'', 1))"
    by simp
  from script_one_file [OF this] re_subn_sub [OF n] n o show ?thesis
    unfolding fix_admin_type_def by simp
qed





section \<open>What a run leaves behind\<close>



text \<open>
  Claim C4, as amended.  Nothing is written before the transform is complete:
  when the file cannot be read, when the substitution fails (as it does for a
  pattern that is not well formed; the three patterns of the scripts are, so
  for them this case never arises) or when the file cannot be opened for
  writing, the run ends with an exception and leaves the whole world as it
  was.  A run whose pattern matches zero times and whose write completes
  leaves in the file the text as it was read, which is the stored text when
  that has no carriage return.  The claim as stated (a run with zero matches
  never alters the file) fails when the write breaks off after the file was
  truncated and when the file has a carriage return, as the counterexample
  below shows.
\<close>

theorem file_untouched_until_write:
  "(\<not> readable_file path w \<longrightarrow> (\<exists>e. script path pattern repl msg w = Some (w, Inl e))) \<and>
   (\<forall>stored e. files w path = Some stored \<and> re_sub pattern repl (f_read stored) = Some (Inl e) \<longrightarrow>
      (\<exists>e'. script path pattern repl msg w = Some (w, Inl e'))) \<and>
   (\<forall>r. path \<in> unwritable w \<and> script path pattern repl msg w = Some r \<longrightarrow>
      fst r = w \<and> snd r \<noteq> Inr ()) \<and>
   (\<forall>stored out. files w path = Some stored \<and> path \<notin> unreadable w \<and>
      re_subn pattern repl (f_read stored) = Some (Inr (out, 0)) \<and> accepts_write path out w \<longrightarrow>
      (\<exists>r. script path pattern repl msg w = Some r \<and>
           (stdout_fault w = No_fault \<longrightarrow> snd r = Inr ()) \<and>
           files (fst r) path = Some (f_read stored) \<and>
           (CR \<notin> set stored \<longrightarrow> files (fst r) path = Some stored)))"
proof (intro conjI allI impI)
  assume "\<not> readable_file path w"
  from script_not_readable [OF this]
  show "\<exists>e. script path pattern repl msg w = Some (w, Inl e)"
    by blast
next
  fix stored e
  assume "files w path = Some stored \<and> re_sub pattern repl (f_read stored) = Some (Inl e)"
  then have "script path pattern repl msg w =
      Some (w, Inl (if path \<in> unreadable w then PermissionError else e))"
    by (intro script_sub_fails) auto
  then show "\<exists>e'. script path pattern repl msg w = Some (w, Inl e')"
    by blast
next
  fix r
  assume a: "path \<in> unwritable w \<and> script path pattern repl msg w = Some r"
  then show "fst r = w"
    by (auto dest: script_not_writable)
  from a show "snd r \<noteq> Inr ()"
    by (auto dest: script_no_write_fails)
next
  fix stored out
  assume a: "files w path = Some stored \<and> path \<notin> unreadable w \<and>
      re_subn pattern repl (f_read stored) = Some (Inr (out, 0)) \<and> accepts_write path out w"
  then have s: "script path pattern repl msg w =
      Some (print msg (w\<lparr>files := (files w)(path \<mapsto> out)\<rparr>))"
    by (intro script_written) auto
  from a have out: "out = f_read stored"
    by (auto dest: re_subn_zero)
  have "stdout_fault w = No_fault \<longrightarrow>
      snd (print msg (w\<lparr>files := (files w)(path \<mapsto> out)\<rparr>)) = Inr ()"
    by (simp add: print_def)
  moreover
  have "files (fst (print msg (w\<lparr>files := (files w)(path \<mapsto> out)\<rparr>))) path = Some (f_read stored)"
    by (simp add: files_print out)
  moreover
  have "CR \<notin> set stored \<longrightarrow>
      files (fst (print msg (w\<lparr>files := (files w)(path \<mapsto> out)\<rparr>))) path = Some stored"
    by (simp add: files_print out f_read_def universal_newlines_no_CR)
  ultimately
  show "\<exists>r. script path pattern repl msg w = Some r \<and>
           (stdout_fault w = No_fault \<longrightarrow> snd r = Inr ()) \<and>
           files (fst r) path = Some (f_read stored) \<and>
           (CR \<notin> set stored \<longrightarrow> files (fst r) path = Some stored)"
    unfolding s by blast
qed

theorem file_untouched_until_write_witness:
  "(\<exists>e. fix_query \<lparr>files = Map.empty, unreadable = {}, unwritable = {}, room = None, stdout = [],
           stdout_fault = No_fault\<rparr> =
      Some (\<lparr>files = Map.empty, unreadable = {}, unwritable = {}, room = None, stdout = [],
             stdout_fault = No_fault\<rparr>, Inl e)) \<and>
   re_sub ''('' ''b'' ''f(x)'' = Some (Inl Re_error) \<and>
   (\<exists>e. script router_path ''('' ''b'' ''done'' (one_file router_path ''f(x)'') =
      Some (one_file router_path ''f(x)'', Inl e)) \<and>
   map_option fst (fix_query ((one_file router_path ''const x = 1;'')\<lparr>unwritable := {router_path}\<rparr>)) =
     Some ((one_file router_path ''const x = 1;'')\<lparr>unwritable := {router_path}\<rparr>) \<and>
   (\<exists>r. fix_query (one_file router_path ''const x = 1;'') = Some r \<and> snd r = Inr () \<and>
        files (fst r) router_path = Some ''const x = 1;'')"
proof -
  let ?e = "\<lparr>files = Map.empty, unreadable = {}, unwritable = {}, room = None, stdout = [],
             stdout_fault = No_fault\<rparr>"
  let ?w = "one_file router_path ''const x = 1;''"
  let ?u = "?w\<lparr>unwritable := {router_path}\<rparr>"
  have r: "f_read ''const x = 1;'' = ''const x = 1;''" "CR \<notin> set ''const x = 1;''"
    "f_read ''f(x)'' = ''f(x)''"
    by (simp_all add: f_read_def CR_def)
  have z: "re_subn old_pattern new_replacement (f_read ''const x = 1;'') =
      Some (Inr (''const x = 1;'', 0))"
    unfolding r
    by (simp add: re_subn_def compile_old_pattern no_backslash_query lit_def isspace_def
        subn_loop.simps)
  have b: "re_sub ''('' ''b'' ''f(x)'' = Some (Inl Re_error)"
    by (simp add: re_sub_def re_subn_def backslash_def)
  from file_untouched_until_write [of router_path ?e old_pattern new_replacement
      "''Updated user include section''"]
  have 1: "\<exists>e. fix_query ?e = Some (?e, Inl e)"
    by (simp add: readable_file_def fix_query_def)
  from file_untouched_until_write [of router_path "one_file router_path ''f(x)''" "''(''" "''b''"
      "''done''"] b
  have 2: "\<exists>e. script router_path ''('' ''b'' ''done'' (one_file router_path ''f(x)'') =
      Some (one_file router_path ''f(x)'', Inl e)"
    by (simp add: one_file_def r)
  have "(old_pattern, new_replacement) \<in> set patches"
    by (simp add: patches_def)
  from script_defined [OF this, of router_path "''Updated user include section''" ?u]
  obtain x where x: "fix_query ?u = Some x"
    unfolding fix_query_def by blast
  have m: "router_path \<in> unwritable ?u"
    by (simp add: one_file_def)
  from x have x': "script router_path old_pattern new_replacement
      ''Updated user include section'' ?u = Some x"
    by (simp only: fix_query_def)
  from file_untouched_until_write [of router_path ?u old_pattern new_replacement
      "''Updated user include section''"] m x'
  have "fst x = ?u"
    by blast
  with x have 3: "map_option fst (fix_query ?u) = Some ?u"
    by simp
  from file_untouched_until_write [of router_path ?w old_pattern new_replacement
      "''Updated user include section''"] z
  have 4: "\<exists>r. fix_query ?w = Some r \<and> snd r = Inr () \<and>
        files (fst r) router_path = Some ''const x = 1;''"
    by (auto simp: fix_query_def one_file_def accepts_write_def r)
  from 1 2 3 4 b show ?thesis
    by simp
qed

theorem zero_match_run_counterexample:
  "re_subn old_pattern new_replacement ''const x = 1;'' = Some (Inr (''const x = 1;'', 0)) \<and>
   fix_query ((one_file router_path ''const x = 1;'')\<lparr>room := Some 5\<rparr>) =
     Some ((one_file router_path ''const'')\<lparr>room := Some 5\<rparr>, Inl OSError) \<and>
   re_subn old_pattern new_replacement [CHR ''a'', CR, LF, CHR ''b''] =
     Some (Inr ([CHR ''a'', CR, LF, CHR ''b''], 0)) \<and>
   re_subn old_pattern new_replacement [CHR ''a'', LF, CHR ''b''] =
     Some (Inr ([CHR ''a'', LF, CHR ''b''], 0)) \<and>
   fix_query (one_file router_path [CHR ''a'', CR, LF, CHR ''b'']) =
     Some ((one_file router_path [CHR ''a'', LF, CHR ''b''])
             \<lparr>stdout := [''Updated user include section'']\<rparr>, Inr ()) \<and>
   ''const'' \<noteq> ''const x = 1;'' \<and>
   [CHR ''a'', LF, CHR ''b''] \<noteq> [CHR ''a'', CR, LF, CHR ''b'']"
proof -
  have z: "re_subn old_pattern new_replacement ''const x = 1;'' = Some (Inr (''const x = 1;'', 0))"
    "re_subn old_pattern new_replacement [CHR ''a'', CR, LF, CHR ''b''] =
       Some (Inr ([CHR ''a'', CR, LF, CHR ''b''], 0))"
    "re_subn old_pattern new_replacement [CHR ''a'', LF, CHR ''b''] =
       Some (Inr ([CHR ''a'', LF, CHR ''b''], 0))"
    by (simp_all add: re_subn_def compile_old_pattern no_backslash_query lit_def isspace_def
        subn_loop.simps CR_def LF_def)
  have r: "f_read ''const x = 1;'' = ''const x = 1;''"
    "f_read [CHR ''a'', CR, LF, CHR ''b''] = [CHR ''a'', LF, CHR ''b'']"
    by (simp_all add: f_read_def CR_def LF_def)
  have "fix_query ((one_file router_path ''const x = 1;'')\<lparr>room := Some 5\<rparr>) =
     Some ((one_file router_path ''const'')\<lparr>room := Some 5\<rparr>, Inl OSError)"
    unfolding fix_query_def
    by (subst script_write_fails [where stored = "''const x = 1;''" and out = "''const x = 1;''"
          and n = 0 and k = 5])
      (simp_all add: r z one_file_def)
  moreover
  have "fix_query (one_file router_path [CHR ''a'', CR, LF, CHR ''b'']) =
     Some ((one_file router_path [CHR ''a'', LF, CHR ''b''])
             \<lparr>stdout := [''Updated user include section'']\<rparr>, Inr ())"
    unfolding fix_query_def
    by (rule script_one_file [where n = 0]) (simp add: r z)
  ultimately show ?thesis
    using z by (simp add: CR_def LF_def)
qed

text \<open>
  Claim C8.  For each of the three scripts the substitution never fails and
  the run ends.  When the file can be read and the new text can be written,
  the exit status is 0 if the line is printed, whatever the number of
  replacements; if standard output does not take the line the run does not
  complete successfully and the status is 1 or 120.  The status is 1 when the
  file cannot be read or the new text cannot be written.
\<close>

theorem exit_status_of_run:
  assumes "(pattern, repl) \<in> set patches"
  shows "\<exists>r. script path pattern repl msg w = Some r \<and>
           (\<forall>stored out n. files w path = Some stored \<and> path \<notin> unreadable w \<and>
              re_subn pattern repl (f_read stored) = Some (Inr (out, n)) \<and>
              accepts_write path out w \<longrightarrow>
              exit_status (snd r) =
                (case stdout_fault w of No_fault \<Rightarrow> 0 | Write_fault \<Rightarrow> 1 | Flush_fault \<Rightarrow> 120)) \<and>
           (\<not> readable_file path w \<longrightarrow> exit_status (snd r) = 1) \<and>
           (\<forall>stored out n. files w path = Some stored \<and>
              re_subn pattern repl (f_read stored) = Some (Inr (out, n)) \<and>
              \<not> accepts_write path out w \<longrightarrow> exit_status (snd r) = 1) \<and>
           (exit_status (snd r) = 0 \<longleftrightarrow> snd r = Inr ()) \<and>
           (\<forall>s. \<exists>out n. re_subn pattern repl s = Some (Inr (out, n)))"
proof -
  from script_defined [OF assms] obtain r where r: "script path pattern repl msg w = Some r"
    by blast
  have 1: "exit_status (snd r) =
      (case stdout_fault w of No_fault \<Rightarrow> 0 | Write_fault \<Rightarrow> 1 | Flush_fault \<Rightarrow> 120)"
    if "files w path = Some stored \<and> path \<notin> unreadable w \<and>
        re_subn pattern repl (f_read stored) = Some (Inr (out, n)) \<and> accepts_write path out w"
    for stored out n
  proof -
    from that have "script path pattern repl msg w =
        Some (print msg (w\<lparr>files := (files w)(path \<mapsto> out)\<rparr>))"
      by (intro script_written) auto
    with r have "r = print msg (w\<lparr>files := (files w)(path \<mapsto> out)\<rparr>)"
      by simp
    then show ?thesis
      by (simp add: exit_status_print)
  qed
  have 2: "exit_status (snd r) = 1" if "\<not> readable_file path w"
    using script_not_readable [OF that, of pattern repl msg] r by (auto simp: exit_status_def)
  have 3: "exit_status (snd r) = 1"
    if "files w path = Some stored \<and>
        re_subn pattern repl (f_read stored) = Some (Inr (out, n)) \<and> \<not> accepts_write path out w"
    for stored out n
    using script_not_accepted [OF _ _ _ r, of stored out n] that by blast
  have 4: "exit_status (snd r) = 0 \<longleftrightarrow> snd r = Inr ()"
    by (cases "snd r") (simp_all add: exit_status_def)
  have 5: "\<forall>s. \<exists>out n. re_subn pattern repl s = Some (Inr (out, n))"
    using patches_re_subn [OF assms] by blast
  show ?thesis
  proof (intro exI [of _ r] conjI allI impI)
    show "script path pattern repl msg w = Some r"
      by (rule r)
  next
    fix stored out n
    assume "files w path = Some stored \<and> path \<notin> unreadable w \<and>
        re_subn pattern repl (f_read stored) = Some (Inr (out, n)) \<and> accepts_write path out w"
    then show "exit_status (snd r) =
        (case stdout_fault w of No_fault \<Rightarrow> 0 | Write_fault \<Rightarrow> 1 | Flush_fault \<Rightarrow> 120)"
      by (rule 1)
  next
    assume "\<not> readable_file path w"
    then show "exit_status (snd r) = 1"
      by (rule 2)
  next
    fix stored out n
    assume "files w path = Some stored \<and>
        re_subn pattern repl (f_read stored) = Some (Inr (out, n)) \<and> \<not> accepts_write path out w"
    then show "exit_status (snd r) = 1"
      by (rule 3)
  next
    show "exit_status (snd r) = 0 \<longleftrightarrow> snd r = Inr ()"
      by (rule 4)
  next
    fix s
    from 5 show "\<exists>out n. re_subn pattern repl s = Some (Inr (out, n))"
      by blast
  qed
qed

theorem exit_status_of_run_witness:
  "map_option (\<lambda>r. exit_status (snd r)) (fix_query (one_file router_path ''nothing to patch'')) =
     Some 0 \<and>
   map_option (\<lambda>r. exit_status (snd r))
     (fix_query (one_file router_path ''user: {include: {profile: true,},},'')) = Some 0 \<and>
   map_option (\<lambda>r. exit_status (snd r)) (fix_query (one_file admin_path ''nothing to patch'')) =
     Some 1 \<and>
   map_option (\<lambda>r. exit_status (snd r))
     (fix_query ((one_file router_path ''nothing to patch'')\<lparr>unwritable := {router_path}\<rparr>)) =
     Some 1 \<and>
   map_option (\<lambda>r. exit_status (snd r))
     (fix_query ((one_file router_path ''nothing to patch'')\<lparr>stdout_fault := Flush_fault\<rparr>)) =
     Some 120 \<and>
   map_option (\<lambda>r. exit_status (snd r))
     (fix_query ((one_file router_path ''nothing to patch'')\<lparr>stdout_fault := Write_fault\<rparr>)) =
     Some 1"
proof -
  have p: "(old_pattern, new_replacement) \<in> set patches"
    by (simp add: patches_def)
  have r: "f_read ''user: {include: {profile: true,},},'' = ''user: {include: {profile: true,},},''"
    "f_read ''nothing to patch'' = ''nothing to patch''"
    by (simp_all add: f_read_def CR_def)
  have 1: "re_subn old_pattern new_replacement (f_read ''user: {include: {profile: true,},},'') =
     Some (Inr (new_replacement, 1))"
    unfolding r
    by (simp add: re_subn_def compile_old_pattern no_backslash_query lit_def isspace_def
        subn_loop.simps)
  have 0: "re_subn old_pattern new_replacement (f_read ''nothing to patch'') =
     Some (Inr (''nothing to patch'', 0))"
    unfolding r
    by (simp add: re_subn_def compile_old_pattern no_backslash_query lit_def isspace_def
        subn_loop.simps)
  have d: "router_path \<noteq> admin_path"
    by (simp add: router_path_def admin_path_def)
  from exit_status_of_run [OF p, of router_path "''Updated user include section''"
      "one_file router_path ''nothing to patch''"] 0
  have a: "map_option (\<lambda>r. exit_status (snd r))
      (fix_query (one_file router_path ''nothing to patch'')) = Some 0"
    by (auto simp: fix_query_def one_file_def accepts_write_def)
  from exit_status_of_run [OF p, of router_path "''Updated user include section''"
      "one_file router_path ''user: {include: {profile: true,},},''"] 1
  have b: "map_option (\<lambda>r. exit_status (snd r))
      (fix_query (one_file router_path ''user: {include: {profile: true,},},'')) = Some 0"
    by (auto simp: fix_query_def one_file_def accepts_write_def)
  from exit_status_of_run [OF p, of router_path "''Updated user include section''"
      "one_file admin_path ''nothing to patch''"] d
  have c: "map_option (\<lambda>r. exit_status (snd r))
      (fix_query (one_file admin_path ''nothing to patch'')) = Some 1"
    by (auto simp: fix_query_def one_file_def readable_file_def)
  from exit_status_of_run [OF p, of router_path "''Updated user include section''"
      "(one_file router_path ''nothing to patch'')\<lparr>unwritable := {router_path}\<rparr>"] 0
  have e: "map_option (\<lambda>r. exit_status (snd r))
     (fix_query ((one_file router_path ''nothing to patch'')\<lparr>unwritable := {router_path}\<rparr>)) =
     Some 1"
    by (auto simp: fix_query_def one_file_def accepts_write_def)
  from exit_status_of_run [OF p, of router_path "''Updated user include section''"
      "(one_file router_path ''nothing to patch'')\<lparr>stdout_fault := Flush_fault\<rparr>"] 0
  have f: "map_option (\<lambda>r. exit_status (snd r))
     (fix_query ((one_file router_path ''nothing to patch'')\<lparr>stdout_fault := Flush_fault\<rparr>)) =
     Some 120"
    by (auto simp: fix_query_def one_file_def accepts_write_def)
  from exit_status_of_run [OF p, of router_path "''Updated user include section''"
      "(one_file router_path ''nothing to patch'')\<lparr>stdout_fault := Write_fault\<rparr>"] 0
  have g: "map_option (\<lambda>r. exit_status (snd r))
     (fix_query ((one_file router_path ''nothing to patch'')\<lparr>stdout_fault := Write_fault\<rparr>)) =
     Some 1"
    by (auto simp: fix_query_def one_file_def accepts_write_def)
  from a b c e f g show ?thesis
    by simp
qed

text \<open>
  Claim C10, as amended.  On every run in which the read and the write
  succeed, the file holds the new text afterwards, whatever the number of
  replacements and whether or not the line is printed, and no other file
  changes; the new text is the substitution applied to the text as read, so it
  is the substitution applied to the stored text when that has no carriage
  return; with zero replacements the file then holds again what it held.  The
  claim as stated (whenever the read succeeds, the final content is the
  substitution applied to the initial content) fails for a file with a
  carriage return and for a file that cannot be written, as the counterexample
  below shows.
\<close>

theorem write_back_unconditional:
  assumes "files w path = Some stored" and "path \<notin> unreadable w"
    and "re_subn pattern repl (f_read stored) = Some (Inr (out, n))"
    and "accepts_write path out w"
  shows "\<exists>r. script path pattern repl msg w = Some r \<and>
           files (fst r) = (files w)(path \<mapsto> out) \<and>
           (n = 0 \<longrightarrow> out = f_read stored) \<and>
           (CR \<notin> set stored \<longrightarrow> re_sub pattern repl stored = Some (Inr out)) \<and>
           (n = 0 \<and> CR \<notin> set stored \<longrightarrow> files (fst r) path = Some stored)"
proof -
  let ?r = "print msg (w\<lparr>files := (files w)(path \<mapsto> out)\<rparr>)"
  from script_written [OF assms] have r: "script path pattern repl msg w = Some ?r" .
  have s: "files (fst ?r) = (files w)(path \<mapsto> out)"
    by (simp add: files_print)
  have z: "out = f_read stored" if "n = 0"
    using assms(3) that by (auto dest: re_subn_zero)
  have c: "re_sub pattern repl stored = Some (Inr out)" if "CR \<notin> set stored"
    using re_subn_sub [OF assms(3)] that by (simp add: f_read_def universal_newlines_no_CR)
  have "files (fst ?r) path = Some stored" if "n = 0 \<and> CR \<notin> set stored"
    using s z that by (simp add: f_read_def universal_newlines_no_CR)
  with r s z c show ?thesis
    by blast
qed

theorem write_back_unconditional_witness:
  "(\<exists>r. fix_query (one_file router_path ''user: {include: {profile: true,},},'') = Some r \<and>
        files (fst r) = [router_path \<mapsto> new_replacement]) \<and>
   (\<exists>r. fix_query (one_file router_path ''nothing to patch'') = Some r \<and>
        files (fst r) = [router_path \<mapsto> ''nothing to patch'']) \<and>
   (\<exists>r. fix_query ((one_file router_path ''user: {include: {profile: true,},},'')
           \<lparr>stdout_fault := Flush_fault\<rparr>) = Some r \<and>
        files (fst r) = [router_path \<mapsto> new_replacement])"
proof -
  have r: "f_read ''user: {include: {profile: true,},},'' = ''user: {include: {profile: true,},},''"
    "f_read ''nothing to patch'' = ''nothing to patch''"
    by (simp_all add: f_read_def CR_def)
  have 1: "re_subn old_pattern new_replacement (f_read ''user: {include: {profile: true,},},'') =
     Some (Inr (new_replacement, 1))"
    unfolding r
    by (simp add: re_subn_def compile_old_pattern no_backslash_query lit_def isspace_def
        subn_loop.simps)
  have 0: "re_subn old_pattern new_replacement (f_read ''nothing to patch'') =
     Some (Inr (''nothing to patch'', 0))"
    unfolding r
    by (simp add: re_subn_def compile_old_pattern no_backslash_query lit_def isspace_def
        subn_loop.simps)
  from write_back_unconditional [OF _ _ 1, of
      "one_file router_path ''user: {include: {profile: true,},},''" router_path
      "''Updated user include section''"]
  have a: "\<exists>r. fix_query (one_file router_path ''user: {include: {profile: true,},},'') = Some r \<and>
        files (fst r) = [router_path \<mapsto> new_replacement]"
    by (auto simp: fix_query_def one_file_def accepts_write_def)
  from write_back_unconditional [OF _ _ 0, of
      "one_file router_path ''nothing to patch''" router_path "''Updated user include section''"]
  have b: "\<exists>r. fix_query (one_file router_path ''nothing to patch'') = Some r \<and>
        files (fst r) = [router_path \<mapsto> ''nothing to patch'']"
    by (auto simp: fix_query_def one_file_def accepts_write_def)
  from write_back_unconditional [OF _ _ 1, of
      "(one_file router_path ''user: {include: {profile: true,},},'')\<lparr>stdout_fault := Flush_fault\<rparr>"
      router_path "''Updated user include section''"]
  have c: "\<exists>r. fix_query ((one_file router_path ''user: {include: {profile: true,},},'')
           \<lparr>stdout_fault := Flush_fault\<rparr>) = Some r \<and>
        files (fst r) = [router_path \<mapsto> new_replacement]"
    by (auto simp: fix_query_def one_file_def accepts_write_def)
  from a b c show ?thesis
    by simp
qed

theorem write_back_counterexample:
  "re_sub old_pattern new_replacement [CHR ''x'', CR, CHR ''y''] =
     Some (Inr [CHR ''x'', CR, CHR ''y'']) \<and>
   fix_query (one_file router_path [CHR ''x'', CR, CHR ''y'']) =
     Some ((one_file router_path [CHR ''x'', LF, CHR ''y''])
             \<lparr>stdout := [''Updated user include section'']\<rparr>, Inr ()) \<and>
   [CHR ''x'', LF, CHR ''y''] \<noteq> [CHR ''x'', CR, CHR ''y''] \<and>
   re_sub old_pattern new_replacement ''user: {include: {profile: true,},},'' =
     Some (Inr new_replacement) \<and>
   fix_query ((one_file router_path ''user: {include: {profile: true,},},'')
       \<lparr>unwritable := {router_path}\<rparr>) =
     Some ((one_file router_path ''user: {include: {profile: true,},},'')
             \<lparr>unwritable := {router_path}\<rparr>, Inl PermissionError) \<and>
   ''user: {include: {profile: true,},},'' \<noteq> new_replacement"
proof -
  have z: "re_subn old_pattern new_replacement [CHR ''x'', CR, CHR ''y''] =
       Some (Inr ([CHR ''x'', CR, CHR ''y''], 0))"
    "re_subn old_pattern new_replacement [CHR ''x'', LF, CHR ''y''] =
       Some (Inr ([CHR ''x'', LF, CHR ''y''], 0))"
    "re_subn old_pattern new_replacement ''user: {include: {profile: true,},},'' =
       Some (Inr (new_replacement, 1))"
    by (simp_all add: re_subn_def compile_old_pattern no_backslash_query lit_def isspace_def
        subn_loop.simps CR_def LF_def)
  have r: "f_read [CHR ''x'', CR, CHR ''y''] = [CHR ''x'', LF, CHR ''y'']"
    by (simp add: f_read_def CR_def LF_def)
  have "fix_query (one_file router_path [CHR ''x'', CR, CHR ''y'']) =
     Some ((one_file router_path [CHR ''x'', LF, CHR ''y''])
             \<lparr>stdout := [''Updated user include section'']\<rparr>, Inr ())"
    unfolding fix_query_def
    by (rule script_one_file [where n = 0]) (simp add: r z)
  moreover
  have "fix_query ((one_file router_path ''user: {include: {profile: true,},},'')
       \<lparr>unwritable := {router_path}\<rparr>) =
     Some ((one_file router_path ''user: {include: {profile: true,},},'')
             \<lparr>unwritable := {router_path}\<rparr>, Inl PermissionError)"
    using re_subn_sub [OF z(3)]
    by (simp add: fix_query_def script_def open_r_def open_w_def one_file_def f_read_def CR_def)
  ultimately show ?thesis
    using re_subn_sub [OF z(1)] re_subn_sub [OF z(3)]
    by (simp add: CR_def LF_def new_replacement_def)
qed

end
